theory Spec2Isabelle
  imports Complex_Main "HOL-Library.Word" "HOL-Library.Signed_Division" "HOL-Library.Multiset"
begin

section \<open>Machine types\<close>

text \<open>
  \<open>uint64_t\<close>, \<open>uint32_t\<close> and \<open>size_t\<close> (64 bits on the LP64 targets the simulator is
  built for) are words: \<open>+\<close>, \<open>-\<close> and \<open>*\<close> wrap around, \<open>div\<close> and \<open>\<le>\<close> are unsigned.
  A \<open>time_point\<close> of \<open>std::chrono::high_resolution_clock\<close> is its tick count, an integer
  number of nanoseconds; the clock reading \<open>now()\<close> is an argument of every function that
  reads the clock.
\<close>

type_synonym u64 = "64 word"
type_synonym u32 = "32 word"
type_synonym size_t = "64 word"
type_synonym TimePoint = int

section \<open>TokenBucket.h\<close>

record TokenBucket =
  tb_rate :: u64
  tb_bucketSize :: u64
  tb_tokens :: u64
  tb_lastUpdate :: TimePoint

text \<open>The constructor: the bucket starts full, \<open>lastUpdate_\<close> is the clock reading.\<close>

definition TokenBucket_new :: "TimePoint \<Rightarrow> u64 \<Rightarrow> u64 \<Rightarrow> TokenBucket" where
  "TokenBucket_new now rate bucketSize =
     \<lparr>tb_rate = rate, tb_bucketSize = bucketSize, tb_tokens = bucketSize, tb_lastUpdate = now\<rparr>"

text \<open>
  \<open>duration_cast<microseconds>(now - lastUpdate_).count()\<close>: the difference in nanoseconds,
  divided by 1000 with truncation towards zero, a signed 64-bit count.
\<close>

definition elapsed_us :: "TimePoint \<Rightarrow> TimePoint \<Rightarrow> int" where
  "elapsed_us now lastUpdate = (now - lastUpdate) sdiv 1000"

text \<open>
  \<open>(rate_ * elapsed) / 1000000\<close>: \<open>elapsed\<close> is converted to \<open>uint64_t\<close>, the product
  wraps modulo \<open>2 ^ 64\<close>, the division is unsigned.
\<close>

definition tokensToAdd :: "TimePoint \<Rightarrow> TokenBucket \<Rightarrow> u64" where
  "tokensToAdd now b =
     (tb_rate b * word_of_int (elapsed_us now (tb_lastUpdate b))) div 1000000"

definition refill :: "TimePoint \<Rightarrow> TokenBucket \<Rightarrow> TokenBucket" where
  "refill now b =
     (if tokensToAdd now b > 0
      then b\<lparr>tb_tokens := min (tb_tokens b + tokensToAdd now b) (tb_bucketSize b),
             tb_lastUpdate := now\<rparr>
      else b)"

text \<open>\<open>consume\<close> returns its result together with the bucket it leaves behind.\<close>

definition consume :: "TimePoint \<Rightarrow> u32 \<Rightarrow> TokenBucket \<Rightarrow> bool \<times> TokenBucket" where
  "consume now n b =
     (let b' = refill now b in
      if tb_tokens b' \<ge> ucast n
      then (True, b'\<lparr>tb_tokens := tb_tokens b' - ucast n\<rparr>)
      else (False, b'))"

definition getTokens :: "TimePoint \<Rightarrow> TokenBucket \<Rightarrow> u64 \<times> TokenBucket" where
  "getTokens now b = (let b' = refill now b in (tb_tokens b', b'))"

section \<open>Packet.h\<close>

datatype PacketPriority = LOW | MEDIUM | HIGH | CRITICAL

text \<open>The enumerators' values; \<open><\<close> and \<open>!=\<close> on the enum compare them.\<close>

fun priority_value :: "PacketPriority \<Rightarrow> nat" where
  "priority_value LOW = 0"
| "priority_value MEDIUM = 1"
| "priority_value HIGH = 2"
| "priority_value CRITICAL = 3"

record Packet =
  pkt_flowId :: u32
  pkt_size :: u32
  pkt_priority :: PacketPriority
  pkt_creationTime :: TimePoint
  pkt_transmissionTime :: TimePoint
  pkt_dropped :: bool

text \<open>The constructor; \<open>TimePoint{}\<close> is the clock's epoch, tick 0.\<close>

definition Packet_new :: "TimePoint \<Rightarrow> u32 \<Rightarrow> u32 \<Rightarrow> PacketPriority \<Rightarrow> Packet" where
  "Packet_new now flowId sz priority =
     \<lparr>pkt_flowId = flowId, pkt_size = sz, pkt_priority = priority,
      pkt_creationTime = now, pkt_transmissionTime = 0, pkt_dropped = False\<rparr>"

section \<open>PacketQueue.h\<close>

definition PacketComparator :: "Packet \<Rightarrow> Packet \<Rightarrow> bool" where
  "PacketComparator a b =
     (if priority_value (pkt_priority a) \<noteq> priority_value (pkt_priority b)
      then priority_value (pkt_priority a) < priority_value (pkt_priority b)
      else pkt_creationTime a > pkt_creationTime b)"

text \<open>
  \<open>std::priority_queue<_, std::vector<_>, PacketComparator>\<close> is library code. It is
  modelled by what the library promises: \<open>push\<close> adds an element, \<open>top\<close> is an element
  that the comparator puts below no other element, \<open>pop\<close> removes that element. The
  content is kept as the list of elements in order of arrival, and among several
  elements the comparator cannot tell apart \<open>top\<close> is the one that arrived first (the
  library leaves that choice open; no theorem below depends on it).
\<close>

fun top_from :: "Packet \<Rightarrow> Packet list \<Rightarrow> Packet" where
  "top_from best [] = best"
| "top_from best (x # xs) = top_from (if PacketComparator best x then x else best) xs"

fun pq_top :: "Packet list \<Rightarrow> Packet option" where
  "pq_top [] = None"
| "pq_top (x # xs) = Some (top_from x xs)"

definition pq_push :: "Packet \<Rightarrow> Packet list \<Rightarrow> Packet list" where
  "pq_push x xs = xs @ [x]"

definition pq_pop :: "Packet list \<Rightarrow> Packet list" where
  "pq_pop xs = (case pq_top xs of None \<Rightarrow> xs | Some p \<Rightarrow> remove1 p xs)"

record PacketQueue =
  pq_queue :: "Packet list"
  pq_maxSize :: size_t
  pq_currentSize :: size_t
  pq_totalDropped :: size_t
  pq_shutdown :: bool

definition PacketQueue_new :: "size_t \<Rightarrow> PacketQueue" where
  "PacketQueue_new maxSize =
     \<lparr>pq_queue = [], pq_maxSize = maxSize, pq_currentSize = 0, pq_totalDropped = 0,
      pq_shutdown = False\<rparr>"

definition enqueue :: "Packet \<Rightarrow> PacketQueue \<Rightarrow> bool \<times> PacketQueue" where
  "enqueue packet q =
     (if pq_currentSize q \<ge> pq_maxSize q
      then (False, q\<lparr>pq_totalDropped := pq_totalDropped q + 1\<rparr>)
      else (True, q\<lparr>pq_queue := pq_push packet (pq_queue q),
                     pq_currentSize := pq_currentSize q + 1\<rparr>))"

text \<open>
  The blocking \<open>dequeue\<close> holds the caller in \<open>cv_.wait\<close> for as long as the wait's
  predicate \<open>!queue_.empty() || shutdown_\<close> is false. One call on a given state either
  stays blocked there (and changes nothing) or returns.
\<close>

datatype 'a blocking = Blocked | Returned 'a

text \<open>\<open>auto packet = queue_.top(); queue_.pop(); currentSize_--; return packet;\<close>\<close>

definition take_top :: "PacketQueue \<Rightarrow> Packet option \<times> PacketQueue" where
  "take_top q =
     (pq_top (pq_queue q),
      q\<lparr>pq_queue := pq_pop (pq_queue q), pq_currentSize := pq_currentSize q - 1\<rparr>)"

definition dequeue :: "PacketQueue \<Rightarrow> Packet option blocking \<times> PacketQueue" where
  "dequeue q =
     (if \<not> (pq_queue q \<noteq> [] \<or> pq_shutdown q) then (Blocked, q)
      else if pq_shutdown q \<and> pq_queue q = [] then (Returned None, q)
      else (Returned (fst (take_top q)), snd (take_top q)))"

definition tryDequeue :: "PacketQueue \<Rightarrow> Packet option \<times> PacketQueue" where
  "tryDequeue q = (if pq_queue q = [] then (None, q) else take_top q)"

definition size_pq :: "PacketQueue \<Rightarrow> size_t" where
  "size_pq q = pq_currentSize q"

definition empty_pq :: "PacketQueue \<Rightarrow> bool" where
  "empty_pq q = (pq_queue q = [])"

definition getTotalDropped :: "PacketQueue \<Rightarrow> size_t" where
  "getTotalDropped q = pq_totalDropped q"

text \<open>
  \<open>shutdown_ = true\<close>. The call \<open>cv_.notify_all()\<close> that follows it acts on the
  threads waiting in \<open>dequeue\<close>, which are part of \<open>QueueSys\<close> below.
\<close>

definition shutdown :: "PacketQueue \<Rightarrow> PacketQueue" where
  "shutdown q = q\<lparr>pq_shutdown := True\<rparr>"

text \<open>Any sequence of calls on one queue, each under the queue's mutex.\<close>

datatype pq_op = Enqueue Packet | Dequeue | TryDequeue | Shutdown

fun pq_step :: "PacketQueue \<Rightarrow> pq_op \<Rightarrow> PacketQueue" where
  "pq_step q (Enqueue p) = snd (enqueue p q)"
| "pq_step q Dequeue = snd (dequeue q)"
| "pq_step q TryDequeue = snd (tryDequeue q)"
| "pq_step q Shutdown = shutdown q"

definition pq_run :: "PacketQueue \<Rightarrow> pq_op list \<Rightarrow> PacketQueue" where
  "pq_run q ops = foldl pq_step q ops"

section \<open>Flow.h\<close>

text \<open>
  \<open>double\<close> is kept abstract: a type \<open>'d\<close> with the operations the code applies to it.
\<close>

record 'd double_ops =
  d_zero :: 'd
  d_of_nat :: "nat \<Rightarrow> 'd"
  d_add :: "'d \<Rightarrow> 'd \<Rightarrow> 'd"
  d_div :: "'d \<Rightarrow> 'd \<Rightarrow> 'd"
  d_positive :: "'d \<Rightarrow> bool"

text \<open>An instance with exact arithmetic, to run the model on concrete inputs.\<close>

definition exact_ops :: "real double_ops" where
  "exact_ops = \<lparr>d_zero = 0, d_of_nat = of_nat, d_add = (+), d_div = (/), d_positive = (\<lambda>x. x > 0)\<rparr>"

text \<open>
  What the random draws need besides: \<open>d_lit\<close> is a literal of the source, rounded to
  \<open>double\<close>; \<open>d_neg_log1m u\<close> is \<open>-log(1 - u)\<close>; \<open>d_to_u64\<close> is
  \<open>static_cast<uint64_t>\<close>, which has no value when the truncated number does not fit.
\<close>

record 'd random_ops = "'d double_ops" +
  d_lit :: "real \<Rightarrow> 'd"
  d_mul :: "'d \<Rightarrow> 'd \<Rightarrow> 'd"
  d_neg_log1m :: "'d \<Rightarrow> 'd"
  d_less :: "'d \<Rightarrow> 'd \<Rightarrow> bool"
  d_to_u64 :: "'d \<Rightarrow> u64 option"

text \<open>
  The exact instance again. Its \<open>-log(1 - u)\<close> is an argument: with
  \<open>\<lambda>u. - ln (1 - u)\<close> the instance is exact and the simplifier evaluates it.
\<close>

definition exact_random_ops :: "(real \<Rightarrow> real) \<Rightarrow> real random_ops" where
  "exact_random_ops neg_log1m =
     \<lparr>d_zero = 0, d_of_nat = of_nat, d_add = (+), d_div = (/), d_positive = (\<lambda>x. x > 0),
      d_lit = (\<lambda>x. x), d_mul = (*), d_neg_log1m = neg_log1m, d_less = (<),
      d_to_u64 = (\<lambda>x. if - 1 < x \<and> x < 2 ^ 64
                        then Some (word_of_int (if 0 \<le> x then \<lfloor>x\<rfloor> else \<lceil>x\<rceil>))
                        else None)\<rparr>"

text \<open>
  What the theorem on Poisson flows needs of \<open>double\<close>: a nonzero integer below \<open>2^32\<close>
  converts to a nonzero \<open>double\<close>, and the quotient of a nonzero integer below \<open>2^64\<close>
  by one below \<open>2^32\<close> is not zero. IEEE 754 binary64 has both: the quotient is at least
  \<open>2^-32\<close>.
\<close>

definition nonzero_quotients :: "'d random_ops \<Rightarrow> bool" where
  "nonzero_quotients ops \<longleftrightarrow>
     (\<forall>n m. 0 < n \<and> n < 2 ^ 64 \<and> 0 < m \<and> m < 2 ^ 32 \<longrightarrow>
        d_of_nat ops m \<noteq> d_zero ops
        \<and> d_div ops (d_of_nat ops n) (d_of_nat ops m) \<noteq> d_zero ops)"

datatype FlowType = CONSTANT_RATE | BURSTY | POISSON

text \<open>
  The fields of \<open>Flow\<close> but for \<open>generator_\<close>: what the generator yields is an
  argument of the function that draws from it.
\<close>

record 'd Flow =
  fl_flowId :: u32
  fl_type :: FlowType
  fl_targetRate :: u64
  fl_priority :: PacketPriority
  fl_active :: bool
  fl_packetsSent :: u64
  fl_packetsDropped :: u64
  fl_bytesTransmitted :: u64
  fl_totalDelay :: 'd

definition Flow_new :: "'d double_ops \<Rightarrow> u32 \<Rightarrow> FlowType \<Rightarrow> u64 \<Rightarrow> PacketPriority \<Rightarrow> 'd Flow" where
  "Flow_new ops flowId type targetRate priority =
     \<lparr>fl_flowId = flowId, fl_type = type, fl_targetRate = targetRate, fl_priority = priority,
      fl_active = True, fl_packetsSent = 0, fl_packetsDropped = 0, fl_bytesTransmitted = 0,
      fl_totalDelay = d_zero ops\<rparr>"

text \<open>\<open>packetSize\<close> is the draw of \<open>sizeDist\<close>.\<close>

definition generatePacket :: "TimePoint \<Rightarrow> u32 \<Rightarrow> 'd Flow \<Rightarrow> Packet \<times> 'd Flow" where
  "generatePacket now packetSize f =
     (Packet_new now (fl_flowId f) packetSize (fl_priority f),
      f\<lparr>fl_packetsSent := fl_packetsSent f + 1\<rparr>)"

text \<open>
  A division by zero is undefined behaviour, of integers (a trap on the usual targets)
  and of \<open>double\<close>s alike; so is a conversion of a \<open>double\<close> to an integer type that
  cannot hold it.
\<close>

datatype fault = DivisionByZero | CastOutOfRange

definition udiv :: "u64 \<Rightarrow> u64 \<Rightarrow> fault + u64" where
  "udiv a b = (if b = 0 then Inl DivisionByZero else Inr (a div b))"

definition ddiv :: "'d random_ops \<Rightarrow> 'd \<Rightarrow> 'd \<Rightarrow> fault + 'd" where
  "ddiv ops a b = (if b = d_zero ops then Inl DivisionByZero else Inr (d_div ops a b))"

text \<open>
  \<open>u\<close> is the uniform variate of \<open>[0, 1)\<close> that \<open>generator_\<close> yields for the
  distribution. \<open>uniform_real_distribution<double>(0.0, 1.0)\<close> returns it as it is, and
  the burst case is \<open>dist(generator_) < 0.3\<close>. \<open>exponential_distribution<double>(lambda)\<close>
  returns \<open>-log(1 - u) / lambda\<close>, with \<open>lambda\<close> the quotient
  \<open>static_cast<double>(targetRate_) / avgPacketSize\<close>; the sample times \<open>1000000.0\<close> is
  converted to \<open>uint64_t\<close>. \<open>avgPacketSize * 1000000ULL\<close> is a 64-bit product.
\<close>

definition getInterArrivalTime ::
  "'d random_ops \<Rightarrow> 'd \<Rightarrow> u32 \<Rightarrow> 'd Flow \<Rightarrow> fault + u64" where
  "getInterArrivalTime ops u avgPacketSize f =
     (case fl_type f of
        CONSTANT_RATE \<Rightarrow> udiv (ucast avgPacketSize * 1000000) (fl_targetRate f)
      | BURSTY \<Rightarrow>
          if d_less ops u (d_lit ops (3 / 10))
          then udiv (ucast avgPacketSize * 1000000) (fl_targetRate f * 3)
          else udiv (ucast avgPacketSize * 1000000) (fl_targetRate f div 2)
      | POISSON \<Rightarrow>
          (case ddiv ops (d_of_nat ops (unat (fl_targetRate f)))
                         (d_of_nat ops (unat avgPacketSize)) of
             Inl e \<Rightarrow> Inl e
           | Inr lambda \<Rightarrow>
               (case ddiv ops (d_neg_log1m ops u) lambda of
                  Inl e \<Rightarrow> Inl e
                | Inr sample \<Rightarrow>
                    (case d_to_u64 ops (d_mul ops sample (d_lit ops 1000000)) of
                       None \<Rightarrow> Inl CastOutOfRange
                     | Some us \<Rightarrow> Inr us))))"

definition recordDrop :: "'d Flow \<Rightarrow> 'd Flow" where
  "recordDrop f = f\<lparr>fl_packetsDropped := fl_packetsDropped f + 1\<rparr>"

definition recordTransmission :: "'d double_ops \<Rightarrow> u32 \<Rightarrow> 'd \<Rightarrow> 'd Flow \<Rightarrow> 'd Flow" where
  "recordTransmission ops bytes delay f =
     f\<lparr>fl_bytesTransmitted := fl_bytesTransmitted f + ucast bytes,
       fl_totalDelay := d_add ops (fl_totalDelay f) delay\<rparr>"

definition getAverageDelay :: "'d double_ops \<Rightarrow> 'd Flow \<Rightarrow> 'd" where
  "getAverageDelay ops f =
     (let transmitted = fl_packetsSent f - fl_packetsDropped f in
      if transmitted > 0 then d_div ops (fl_totalDelay f) (d_of_nat ops (unat transmitted))
      else d_zero ops)"

section \<open>StatisticsCollector.h\<close>

record 'd FlowStats =
  fs_flowId :: u32
  fs_packetsSent :: u64
  fs_packetsDropped :: u64
  fs_bytesTransmitted :: u64
  fs_averageDelay :: 'd
  fs_throughput :: 'd
  fs_dropRate :: 'd

text \<open>The body of the loop over the flows in \<open>collectStats\<close>: one flow's snapshot.\<close>

definition flowStat :: "'d double_ops \<Rightarrow> 'd \<Rightarrow> 'd Flow \<Rightarrow> 'd FlowStats" where
  "flowStat ops elapsed f =
     \<lparr>fs_flowId = fl_flowId f,
      fs_packetsSent = fl_packetsSent f,
      fs_packetsDropped = fl_packetsDropped f,
      fs_bytesTransmitted = fl_bytesTransmitted f,
      fs_averageDelay = getAverageDelay ops f,
      fs_throughput =
        (if d_positive ops elapsed
         then d_div ops (d_of_nat ops (unat (fl_bytesTransmitted f))) elapsed
         else d_zero ops),
      fs_dropRate =
        (if fl_packetsSent f > 0
         then d_div ops (d_of_nat ops (unat (fl_packetsDropped f)))
                        (d_of_nat ops (unat (fl_packetsSent f)))
         else d_zero ops)\<rparr>"

section \<open>Sequences of calls\<close>

text \<open>Any sequence of calls on one token bucket, each with the clock reading it sees.\<close>

datatype tb_op = Consume TimePoint u32 | GetTokens TimePoint

fun tb_step :: "TokenBucket \<Rightarrow> tb_op \<Rightarrow> TokenBucket" where
  "tb_step b (Consume now n) = snd (consume now n b)"
| "tb_step b (GetTokens now) = snd (getTokens now b)"

definition tb_run :: "TokenBucket \<Rightarrow> tb_op list \<Rightarrow> TokenBucket" where
  "tb_run b ops = foldl tb_step b ops"

text \<open>
  The queue together with the callers of its blocking \<open>dequeue\<close>. Every member function
  runs with \<open>mutex_\<close> held, so calls from several threads happen one after the other, in
  any order. A thread inside \<open>cv_.wait(lock, pred)\<close> is either blocked (it has released
  the mutex and sleeps on \<open>cv_\<close>) or woken (a notification, or a spurious wake-up, has
  unblocked it, and it has yet to take the mutex and test the predicate again). Threads
  are numbered.
\<close>

record QueueSys =
  qs_queue :: PacketQueue
  qs_blocked :: "nat list"
  qs_woken :: "nat list"

definition QueueSys_new :: "size_t \<Rightarrow> QueueSys" where
  "QueueSys_new maxSize = \<lparr>qs_queue = PacketQueue_new maxSize, qs_blocked = [], qs_woken = []\<rparr>"

text \<open>
  \<open>cv_.notify_one()\<close> unblocks one of the blocked threads if there is any, the library
  does not say which: \<open>k\<close> is its choice. \<open>cv_.notify_all()\<close> unblocks all of them.
\<close>

definition notify_one :: "nat \<Rightarrow> QueueSys \<Rightarrow> QueueSys" where
  "notify_one k s =
     (if qs_blocked s = [] then s
      else let t = qs_blocked s ! (k mod length (qs_blocked s)) in
           s\<lparr>qs_blocked := remove1 t (qs_blocked s), qs_woken := qs_woken s @ [t]\<rparr>)"

definition notify_all :: "QueueSys \<Rightarrow> QueueSys" where
  "notify_all s = s\<lparr>qs_blocked := [], qs_woken := qs_woken s @ qs_blocked s\<rparr>"

text \<open>
  Thread \<open>t\<close> holds the mutex in \<open>dequeue\<close> and tests the predicate of the wait: where it
  is false the thread blocks, where it is true the call goes on and returns to \<open>t\<close>.
\<close>

definition wait_and_take :: "nat \<Rightarrow> QueueSys \<Rightarrow> QueueSys \<times> (nat \<times> Packet option) option" where
  "wait_and_take t s =
     (case fst (dequeue (qs_queue s)) of
        Blocked \<Rightarrow> (s\<lparr>qs_blocked := qs_blocked s @ [t]\<rparr>, None)
      | Returned r \<Rightarrow> (s\<lparr>qs_queue := snd (dequeue (qs_queue s))\<rparr>, Some (t, r)))"

text \<open>
  What can happen next: a call of a member function by some thread (a thread inside
  \<open>dequeue\<close> calls nothing), a woken thread running again, a spurious wake-up. A step
  gives the new state and, when a blocking \<open>dequeue\<close> returns in it, the thread and the
  value returned.
\<close>

datatype event =
  CallEnqueue Packet nat | CallDequeue nat | Resume nat | SpuriousWake nat
  | CallTryDequeue | CallShutdown

fun qs_step :: "QueueSys \<Rightarrow> event \<Rightarrow> QueueSys \<times> (nat \<times> Packet option) option" where
  "qs_step s (CallEnqueue p k) =
     (if fst (enqueue p (qs_queue s))
      then (notify_one k (s\<lparr>qs_queue := snd (enqueue p (qs_queue s))\<rparr>), None)
      else (s\<lparr>qs_queue := snd (enqueue p (qs_queue s))\<rparr>, None))"
| "qs_step s (CallDequeue t) =
     (if t \<in> set (qs_blocked s) \<or> t \<in> set (qs_woken s) then (s, None)
      else wait_and_take t s)"
| "qs_step s (Resume t) =
     (if t \<in> set (qs_woken s) then wait_and_take t (s\<lparr>qs_woken := remove1 t (qs_woken s)\<rparr>)
      else (s, None))"
| "qs_step s (SpuriousWake t) =
     (if t \<in> set (qs_blocked s)
      then (s\<lparr>qs_blocked := remove1 t (qs_blocked s), qs_woken := qs_woken s @ [t]\<rparr>, None)
      else (s, None))"
| "qs_step s CallTryDequeue = (s\<lparr>qs_queue := snd (tryDequeue (qs_queue s))\<rparr>, None)"
| "qs_step s CallShutdown = (notify_all (s\<lparr>qs_queue := shutdown (qs_queue s)\<rparr>), None)"

text \<open>A run: the state it ends in and the returns of blocking \<open>dequeue\<close>s, in order.\<close>

fun qs_run :: "QueueSys \<Rightarrow> event list \<Rightarrow> QueueSys \<times> (nat \<times> Packet option) list" where
  "qs_run s [] = (s, [])"
| "qs_run s (e # es) =
     (fst (qs_run (fst (qs_step s e)) es),
      (case snd (qs_step s e) of None \<Rightarrow> [] | Some r \<Rightarrow> [r]) @ snd (qs_run (fst (qs_step s e)) es))"

text \<open>The queue's counter agrees with its content and is within the bound.\<close>

definition pq_inv :: "PacketQueue \<Rightarrow> bool" where
  "pq_inv q \<longleftrightarrow>
     unat (pq_currentSize q) = length (pq_queue q) \<and> pq_currentSize q \<le> pq_maxSize q"

section \<open>Token bucket: refill\<close>

lemma elapsed_us_nonneg: "lastUpdate \<le> now \<Longrightarrow> 0 \<le> elapsed_us now lastUpdate"
  by (simp add: elapsed_us_def signed_divide_int_def sgn_if pos_imp_zdiv_nonneg_iff)

lemma elapsed_us_floor:
  "lastUpdate \<le> now \<Longrightarrow> elapsed_us now lastUpdate = (now - lastUpdate) div 1000"
  by (simp add: elapsed_us_def signed_divide_int_def sgn_if)

lemma unat_mult_of_int:
  fixes r :: u64
  assumes "0 \<le> e" and "unat r * nat e < 2 ^ 64"
  shows "unat (r * word_of_int e) = unat r * nat e"
proof (cases "r = 0")
  case True
  then show ?thesis by simp
next
  case False
  then have "0 < unat r" by (simp add: unat_gt_0)
  then have "nat e \<le> unat r * nat e" by simp
  with assms(2) have lt: "nat e < 2 ^ 64" by linarith
  have "(word_of_int e :: u64) = word_of_nat (nat e)"
    using assms(1) by simp
  then have "unat (word_of_int e :: u64) = nat e"
    using lt by (simp add: unat_of_nat take_bit_nat_eq_self)
  then show ?thesis
    using assms(2) by (simp add: unat_word_ariths)
qed

lemma tokensToAdd_exact:
  assumes "tb_lastUpdate b \<le> now"
    and "unat (tb_rate b) * nat (elapsed_us now (tb_lastUpdate b)) < 2 ^ 64"
  shows "unat (tokensToAdd now b) =
           unat (tb_rate b) * nat (elapsed_us now (tb_lastUpdate b)) div 1000000"
proof -
  have "unat (tb_rate b * word_of_int (elapsed_us now (tb_lastUpdate b))) =
          unat (tb_rate b) * nat (elapsed_us now (tb_lastUpdate b))"
    using assms by (intro unat_mult_of_int elapsed_us_nonneg)
  then show ?thesis
    by (simp add: tokensToAdd_def unat_div)
qed

lemma refill_le_bucketSize:
  "tb_tokens b \<le> tb_bucketSize b \<Longrightarrow> tb_tokens (refill now b) \<le> tb_bucketSize (refill now b)"
  by (simp add: refill_def)

lemma refill_unat_tokens:
  assumes "unat (tb_tokens b) + unat (tokensToAdd now b) < 2 ^ 64"
  shows "unat (tb_tokens (refill now b)) =
           (if 0 < unat (tokensToAdd now b)
            then min (unat (tb_tokens b) + unat (tokensToAdd now b)) (unat (tb_bucketSize b))
            else unat (tb_tokens b))"
proof -
  have "unat (tb_tokens b + tokensToAdd now b) = unat (tb_tokens b) + unat (tokensToAdd now b)"
    using assms by (simp add: unat_word_ariths)
  then show ?thesis
    by (simp add: refill_def word_less_nat_alt min_def word_le_nat_alt)
qed

text \<open>Whatever the clock says, one refill adds at most \<open>(2 ^ 64 - 1) div 10 ^ 6\<close> tokens.\<close>

lemma tokensToAdd_bound: "unat (tokensToAdd now b) \<le> 18446744073709"
proof -
  have "unat (tb_rate b * word_of_int (elapsed_us now (tb_lastUpdate b))) < 2 ^ 64"
    using unsigned_less [of "tb_rate b * word_of_int (elapsed_us now (tb_lastUpdate b))",
        where ?'a = nat]
    by simp
  then have "unat (tb_rate b * word_of_int (elapsed_us now (tb_lastUpdate b))) div 1000000
               \<le> 18446744073709"
    by simp
  then show ?thesis
    by (simp add: tokensToAdd_def unat_div)
qed

text \<open>
  C1, as the code has it. The 64-bit product \<open>rate_ * elapsed\<close> and the 64-bit sum
  \<open>tokens_ + tokensToAdd\<close> wrap around, so the claim holds where neither does and the
  clock has not gone backwards: for a bucket with \<open>tokens \<le> capacity\<close>, a refill at
  \<open>now \<ge> last_refill\<close> with \<open>e\<close> whole microseconds elapsed and
  \<open>add = floor (rate * e / 10^6)\<close>, where \<open>rate * e < 2^64\<close> and \<open>tokens + add < 2^64\<close>,
  sets \<open>tokens\<close> to \<open>min (tokens + add) capacity\<close> and \<open>last_refill\<close> to \<open>now\<close> when
  \<open>add > 0\<close> and changes nothing when \<open>add = 0\<close>; rate and capacity never change; the
  new token count is at most the capacity and at least the old token count.
\<close>

theorem refill_no_wraparound:
  assumes inv: "tb_tokens b \<le> tb_bucketSize b"
    and mono: "tb_lastUpdate b \<le> now"
    and e: "e = nat ((now - tb_lastUpdate b) div 1000)"
    and add: "add = unat (tb_rate b) * e div 1000000"
    and prod: "unat (tb_rate b) * e < 2 ^ 64"
    and sum: "unat (tb_tokens b) + add < 2 ^ 64"
  shows "unat (tb_tokens (refill now b)) =
           (if 0 < add then min (unat (tb_tokens b) + add) (unat (tb_bucketSize b))
            else unat (tb_tokens b))
       \<and> tb_lastUpdate (refill now b) = (if 0 < add then now else tb_lastUpdate b)
       \<and> tb_rate (refill now b) = tb_rate b
       \<and> tb_bucketSize (refill now b) = tb_bucketSize b
       \<and> tb_tokens (refill now b) \<le> tb_bucketSize b
       \<and> tb_tokens b \<le> tb_tokens (refill now b)"
proof -
  have el: "nat (elapsed_us now (tb_lastUpdate b)) = e"
    using mono e by (simp add: elapsed_us_floor)
  have ta: "unat (tokensToAdd now b) = add"
    using tokensToAdd_exact [OF mono] prod add el by simp
  have pos: "tokensToAdd now b > 0 \<longleftrightarrow> 0 < add"
    using ta by (simp add: word_less_nat_alt)
  have tok: "unat (tb_tokens (refill now b)) =
           (if 0 < add then min (unat (tb_tokens b) + add) (unat (tb_bucketSize b))
            else unat (tb_tokens b))"
    using refill_unat_tokens [of b now] sum ta by simp
  have upd: "tb_lastUpdate (refill now b) = (if 0 < add then now else tb_lastUpdate b)"
    using pos by (simp add: refill_def)
  have same: "tb_rate (refill now b) = tb_rate b" "tb_bucketSize (refill now b) = tb_bucketSize b"
    by (simp_all add: refill_def)
  have cap: "tb_tokens (refill now b) \<le> tb_bucketSize b"
    using refill_le_bucketSize [OF inv, of now] same by simp
  have "unat (tb_tokens b) \<le> unat (tb_tokens (refill now b))"
    using tok inv by (simp add: word_le_nat_alt)
  then have incr: "tb_tokens b \<le> tb_tokens (refill now b)"
    by (simp add: word_le_nat_alt)
  show ?thesis
    using tok upd same cap incr by blast
qed

text \<open>
  A bucket of rate 1000000 bytes/s holding 60 of 100 tokens, refilled 5 microseconds
  (5000 ticks) after its last refill: 5 tokens are added and \<open>last_refill\<close> advances.
\<close>

theorem refill_no_wraparound_witness:
  "unat (tb_tokens (refill 5000
      \<lparr>tb_rate = 1000000, tb_bucketSize = 100, tb_tokens = 60, tb_lastUpdate = 0\<rparr>)) = 65
   \<and> tb_lastUpdate (refill 5000
      \<lparr>tb_rate = 1000000, tb_bucketSize = 100, tb_tokens = 60, tb_lastUpdate = 0\<rparr>) = 5000"
  using refill_no_wraparound
    [of "\<lparr>tb_rate = 1000000, tb_bucketSize = 100, tb_tokens = 60, tb_lastUpdate = 0\<rparr>" 5000 5 5]
  by simp

text \<open>
  C1 as stated fails where the arithmetic wraps. A full bucket of capacity \<open>2^64 - 1\<close>
  and rate 1000000, refilled one microsecond after construction: \<open>tokens_ + 1\<close> wraps to
  0, so the token count falls from \<open>2^64 - 1\<close> to 0 with no \<open>consume\<close> in between. A
  bucket of rate \<open>2^63\<close> refilled after two microseconds: the product wraps to 0, so
  nothing is added where \<open>floor (rate * elapsed / 10^6)\<close> is 18446744073709.
\<close>

theorem refill_wraparound_counterexample:
  "tb_tokens (TokenBucket_new 0 1000000 18446744073709551615) = 18446744073709551615
   \<and> tb_tokens (refill 1000 (TokenBucket_new 0 1000000 18446744073709551615)) = 0
   \<and> tokensToAdd 2000 (TokenBucket_new 0 9223372036854775808 100) = 0
   \<and> (9223372036854775808 * 2) div 1000000 = (18446744073709 :: nat)"
  by (simp add: refill_def tokensToAdd_def TokenBucket_new_def elapsed_us_def
      signed_divide_int_def)

section \<open>Token bucket: consume\<close>

lemma unat_ucast_u32: "unat (ucast (n :: u32) :: u64) = unat n"
proof -
  have "unat n < 2 ^ 32"
    using unsigned_less [of n, where ?'a = nat] by simp
  then have "unat n < 2 ^ 64"
    by (rule less_le_trans) simp
  then show ?thesis
    by (simp add: unsigned_ucast_eq take_bit_nat_eq_self)
qed

lemma consume_unfold:
  "consume now n b =
     (if unat n \<le> unat (tb_tokens (refill now b))
      then (True, (refill now b)\<lparr>tb_tokens := tb_tokens (refill now b) - ucast n\<rparr>)
      else (False, refill now b))"
  by (simp add: consume_def Let_def word_le_nat_alt unat_ucast_u32)

lemma unat_sub_u32:
  "unat (n :: u32) \<le> unat (t :: u64) \<Longrightarrow> unat (t - ucast n) = unat t - unat n"
  by (simp add: unat_sub word_le_nat_alt unat_ucast_u32)

text \<open>
  C2. \<open>consume now n\<close> refills, then succeeds exactly when the refilled token count is
  at least \<open>n\<close>. On success the bucket left behind is the refilled bucket with exactly
  \<open>n\<close> tokens less (the subtraction does not wrap); on failure it is the refilled
  bucket itself, nothing deducted.
\<close>

theorem consume_refills_then_deducts:
  "fst (consume now n b) = (unat n \<le> unat (tb_tokens (refill now b)))
   \<and> snd (consume now n b) =
       (if unat n \<le> unat (tb_tokens (refill now b))
        then (refill now b)\<lparr>tb_tokens := tb_tokens (refill now b) - ucast n\<rparr>
        else refill now b)
   \<and> unat (tb_tokens (snd (consume now n b))) =
       (if unat n \<le> unat (tb_tokens (refill now b))
        then unat (tb_tokens (refill now b)) - unat n
        else unat (tb_tokens (refill now b)))"
  by (simp add: consume_unfold unat_sub_u32)

text \<open>
  A bucket holding 60 of 100 tokens, 5 microseconds after its last refill at 1000000
  bytes/s: a request for 70 fails and leaves the 65 refilled tokens, a request for 40
  succeeds and leaves 25.
\<close>

theorem consume_refills_then_deducts_witness:
  "consume 5000 70 \<lparr>tb_rate = 1000000, tb_bucketSize = 100, tb_tokens = 60, tb_lastUpdate = 0\<rparr>
     = (False, \<lparr>tb_rate = 1000000, tb_bucketSize = 100, tb_tokens = 65, tb_lastUpdate = 5000\<rparr>)
   \<and> consume 5000 40 \<lparr>tb_rate = 1000000, tb_bucketSize = 100, tb_tokens = 60, tb_lastUpdate = 0\<rparr>
     = (True, \<lparr>tb_rate = 1000000, tb_bucketSize = 100, tb_tokens = 25, tb_lastUpdate = 5000\<rparr>)"
proof -
  let ?b = "\<lparr>tb_rate = 1000000, tb_bucketSize = 100, tb_tokens = 60, tb_lastUpdate = 0\<rparr>"
  have r: "refill 5000 ?b
      = \<lparr>tb_rate = 1000000, tb_bucketSize = 100, tb_tokens = 65, tb_lastUpdate = 5000\<rparr>"
    by (simp add: refill_def tokensToAdd_def elapsed_us_def signed_divide_int_def)
  show ?thesis
    using consume_refills_then_deducts [of 5000 70 ?b] consume_refills_then_deducts [of 5000 40 ?b]
    by (simp add: r prod_eq_iff)
qed

text \<open>
  Over every sequence of calls on a constructed bucket the token count stays within the
  capacity, wrap-around or not.
\<close>

lemma consume_le_bucketSize:
  assumes "tb_tokens b \<le> tb_bucketSize b"
  shows "tb_tokens (snd (consume now n b)) \<le> tb_bucketSize (snd (consume now n b))"
proof -
  have r: "tb_tokens (refill now b) \<le> tb_bucketSize (refill now b)"
    using assms by (rule refill_le_bucketSize)
  show ?thesis
  proof (cases "unat n \<le> unat (tb_tokens (refill now b))")
    case True
    then have "unat (tb_tokens (refill now b) - ucast n) \<le> unat (tb_tokens (refill now b))"
      by (simp add: unat_sub_u32)
    then have "tb_tokens (refill now b) - ucast n \<le> tb_bucketSize (refill now b)"
      using r by (simp add: word_le_nat_alt)
    then show ?thesis using True by (simp add: consume_unfold)
  next
    case False
    then show ?thesis using r by (simp add: consume_unfold)
  qed
qed

lemma tb_step_le_bucketSize:
  assumes "tb_tokens b \<le> tb_bucketSize b"
  shows "tb_tokens (tb_step b x) \<le> tb_bucketSize (tb_step b x)"
proof (cases x)
  case (Consume now n)
  then show ?thesis using consume_le_bucketSize [OF assms] by simp
next
  case (GetTokens now)
  then show ?thesis using refill_le_bucketSize [OF assms] by (simp add: getTokens_def Let_def)
qed

lemma tb_run_le_bucketSize:
  "tb_tokens b \<le> tb_bucketSize b \<Longrightarrow> tb_tokens (tb_run b ops) \<le> tb_bucketSize (tb_run b ops)"
proof (induction ops arbitrary: b)
  case Nil
  then show ?case by (simp add: tb_run_def)
next
  case (Cons x ops)
  have "tb_tokens (tb_step b x) \<le> tb_bucketSize (tb_step b x)"
    using Cons.prems by (rule tb_step_le_bucketSize)
  then have "tb_tokens (tb_run (tb_step b x) ops) \<le> tb_bucketSize (tb_run (tb_step b x) ops)"
    by (rule Cons.IH)
  then show ?case by (simp add: tb_run_def)
qed

lemma tb_run_new_le_bucketSize:
  "tb_tokens (tb_run (TokenBucket_new t0 r c) ops) \<le> tb_bucketSize (tb_run (TokenBucket_new t0 r c) ops)"
  by (rule tb_run_le_bucketSize) (simp add: TokenBucket_new_def)

section \<open>Token bucket: construction\<close>

text \<open>
  C10, as the code has it. A new bucket holds \<open>capacity\<close> tokens. The first
  \<open>getTokens\<close> refills before it reports, and the refill's 64-bit sum
  \<open>tokens_ + tokensToAdd\<close> can wrap; where it does not (\<open>capacity\<close> plus the amount
  that call adds is below \<open>2^64\<close>), the first \<open>getTokens\<close> returns the capacity, and a
  first \<open>consume n\<close> succeeds exactly when \<open>n \<le> capacity\<close> and then leaves
  \<open>capacity - n\<close> tokens.
\<close>

theorem TokenBucket_new_full:
  assumes "unat c + unat (tokensToAdd now (TokenBucket_new t0 r c)) < 2 ^ 64"
  shows "tb_tokens (TokenBucket_new t0 r c) = c
       \<and> fst (getTokens now (TokenBucket_new t0 r c)) = c
       \<and> fst (consume now n (TokenBucket_new t0 r c)) = (unat n \<le> unat c)
       \<and> unat (tb_tokens (snd (consume now n (TokenBucket_new t0 r c)))) =
           (if unat n \<le> unat c then unat c - unat n else unat c)"
proof -
  let ?b = "TokenBucket_new t0 r c"
  have "unat (tb_tokens (refill now ?b)) = unat c"
    using refill_unat_tokens [of ?b now] assms by (simp add: TokenBucket_new_def)
  then have full: "tb_tokens (refill now ?b) = c"
    by (simp add: word_unat_eq_iff)
  show ?thesis
    using full by (simp add: getTokens_def consume_unfold unat_sub_u32 TokenBucket_new_def)
qed

text \<open>
  A bucket of rate 800 KB/s and capacity 100 KB (the first scenario of \<open>main.cpp\<close>), read
  and drained 250 microseconds after construction.
\<close>

theorem TokenBucket_new_full_witness:
  "unat (102400 :: u64) + unat (tokensToAdd 250000 (TokenBucket_new 0 819200 102400)) < 2 ^ 64
   \<and> fst (getTokens 250000 (TokenBucket_new 0 819200 102400)) = 102400
   \<and> fst (consume 250000 1500 (TokenBucket_new 0 819200 102400))
   \<and> unat (tb_tokens (snd (consume 250000 1500 (TokenBucket_new 0 819200 102400)))) = 100900"
proof -
  have h: "unat (102400 :: u64) + unat (tokensToAdd 250000 (TokenBucket_new 0 819200 102400))
             < 2 ^ 64"
    by (simp add: tokensToAdd_def TokenBucket_new_def elapsed_us_def signed_divide_int_def)
  show ?thesis
    using h TokenBucket_new_full [OF h, of 1500] by simp
qed

text \<open>
  C10 as stated fails for a capacity within 18446744073709 of \<open>2^64\<close>: a bucket of
  capacity \<open>2^64 - 1\<close> and rate 1000000, observed one microsecond after construction,
  reports 0 tokens and refuses a one-byte \<open>consume\<close>.
\<close>

theorem TokenBucket_new_full_counterexample:
  "fst (getTokens 1000 (TokenBucket_new 0 1000000 18446744073709551615)) = 0
   \<and> \<not> fst (consume 1000 1 (TokenBucket_new 0 1000000 18446744073709551615))"
proof -
  have "tb_tokens (refill 1000 (TokenBucket_new 0 1000000 18446744073709551615)) = 0"
    by (simp add: refill_def tokensToAdd_def TokenBucket_new_def elapsed_us_def
        signed_divide_int_def)
  then show ?thesis
    by (simp add: getTokens_def consume_unfold)
qed

section \<open>Packet queue: the comparator and the top element\<close>

lemma PacketComparator_iff:
  "PacketComparator a b \<longleftrightarrow>
     priority_value (pkt_priority a) < priority_value (pkt_priority b)
     \<or> (priority_value (pkt_priority a) = priority_value (pkt_priority b)
        \<and> pkt_creationTime b < pkt_creationTime a)"
  by (auto simp: PacketComparator_def)

lemma not_below_trans:
  "\<not> PacketComparator m b \<Longrightarrow> \<not> PacketComparator b y \<Longrightarrow> \<not> PacketComparator m y"
  by (auto simp: PacketComparator_iff)

lemma top_from_mem: "top_from best xs \<in> set (best # xs)"
  by (induction xs arbitrary: best) auto

lemma top_from_not_below_best: "\<not> PacketComparator (top_from best xs) best"
proof (induction xs arbitrary: best)
  case Nil
  show ?case by (simp add: PacketComparator_iff)
next
  case (Cons x xs)
  show ?case
  proof (cases "PacketComparator best x")
    case True
    have "\<not> PacketComparator (top_from x xs) x" by (rule Cons.IH)
    moreover have "\<not> PacketComparator x best"
      using True by (auto simp: PacketComparator_iff)
    ultimately show ?thesis
      using True by (simp add: not_below_trans)
  next
    case False
    then show ?thesis using Cons.IH [of best] by simp
  qed
qed

lemma top_from_max: "y \<in> set (best # xs) \<Longrightarrow> \<not> PacketComparator (top_from best xs) y"
proof (induction xs arbitrary: best)
  case Nil
  then show ?case by (simp add: PacketComparator_iff)
next
  case (Cons x xs)
  let ?b = "if PacketComparator best x then x else best"
  have step: "top_from best (x # xs) = top_from ?b xs" by simp
  have top_b: "\<not> PacketComparator (top_from ?b xs) ?b"
    by (rule top_from_not_below_best)
  consider "y = best" | "y = x" | "y \<in> set xs"
    using Cons.prems by auto
  then show ?case
  proof cases
    case 1
    have "\<not> PacketComparator ?b best" by (auto simp: PacketComparator_iff)
    with top_b show ?thesis unfolding step 1 by (rule not_below_trans)
  next
    case 2
    have "\<not> PacketComparator ?b x" by (auto simp: PacketComparator_iff)
    with top_b show ?thesis unfolding step 2 by (rule not_below_trans)
  next
    case 3
    then have "y \<in> set (?b # xs)" by simp
    then show ?thesis unfolding step by (rule Cons.IH)
  qed
qed

text \<open>What the library promises of top, read through the comparator.\<close>

lemma not_below_all_iff:
  "(\<forall>y\<in>set xs. \<not> PacketComparator p y) \<longleftrightarrow>
   (\<forall>y\<in>set xs. priority_value (pkt_priority y) \<le> priority_value (pkt_priority p)
      \<and> (priority_value (pkt_priority y) = priority_value (pkt_priority p)
           \<longrightarrow> pkt_creationTime p \<le> pkt_creationTime y))"
  by (auto simp: PacketComparator_iff not_less)

lemma pq_top_Some:
  "xs \<noteq> [] \<Longrightarrow> \<exists>p. pq_top xs = Some p \<and> p \<in> set xs \<and> (\<forall>y\<in>set xs. \<not> PacketComparator p y)"
proof (cases xs)
  case Nil
  assume "xs \<noteq> []" with Nil show ?thesis by simp
next
  case (Cons x xs')
  then show ?thesis
    using top_from_mem [of x xs'] top_from_max [of _ x xs'] by auto
qed

lemma take_top_nonempty:
  assumes "pq_queue q \<noteq> []"
  shows "\<exists>p. take_top q =
           (Some p, q\<lparr>pq_queue := remove1 p (pq_queue q), pq_currentSize := pq_currentSize q - 1\<rparr>)
         \<and> p \<in> set (pq_queue q) \<and> (\<forall>y\<in>set (pq_queue q). \<not> PacketComparator p y)"
proof -
  obtain p where p: "pq_top (pq_queue q) = Some p" "p \<in> set (pq_queue q)"
      "\<forall>y\<in>set (pq_queue q). \<not> PacketComparator p y"
    using pq_top_Some [OF assms] by blast
  then show ?thesis
    by (auto simp: take_top_def pq_pop_def)
qed

lemma enqueue_unfold:
  "enqueue p q =
     (if pq_currentSize q < pq_maxSize q
      then (True, q\<lparr>pq_queue := pq_push p (pq_queue q), pq_currentSize := pq_currentSize q + 1\<rparr>)
      else (False, q\<lparr>pq_totalDropped := pq_totalDropped q + 1\<rparr>))"
  by (simp add: enqueue_def not_le [symmetric])

lemma unat_Suc_below:
  fixes c m :: size_t
  assumes "c < m"
  shows "unat (c + 1) = Suc (unat c)" and "c + 1 \<le> m"
proof -
  have "unat c < unat m" using assms by (simp add: word_less_nat_alt)
  moreover have "unat m < 2 ^ 64"
    using unsigned_less [of m, where ?'a = nat] by simp
  ultimately have "unat c + 1 < 2 ^ 64" by linarith
  then show suc: "unat (c + 1) = Suc (unat c)"
    by (simp add: unat_word_ariths)
  show "c + 1 \<le> m"
    using suc \<open>unat c < unat m\<close> by (simp add: word_le_nat_alt)
qed

lemma unat_pred_pos:
  fixes c :: size_t
  assumes "0 < unat c"
  shows "unat (c - 1) = unat c - 1" and "c - 1 \<le> c"
proof -
  have "1 \<le> c" using assms by (simp add: word_le_nat_alt)
  then show p: "unat (c - 1) = unat c - 1"
    by (simp add: unat_sub)
  show "c - 1 \<le> c" using p by (simp add: word_le_nat_alt)
qed

lemma enqueue_inv:
  assumes "pq_inv q"
  shows "pq_inv (snd (enqueue p q)) \<and> pq_maxSize (snd (enqueue p q)) = pq_maxSize q"
proof (cases "pq_currentSize q < pq_maxSize q")
  case True
  then show ?thesis
    using assms unat_Suc_below [OF True] by (simp add: pq_inv_def enqueue_unfold pq_push_def)
next
  case False
  then have "snd (enqueue p q) = q\<lparr>pq_totalDropped := pq_totalDropped q + 1\<rparr>"
    by (simp add: enqueue_unfold)
  then show ?thesis
    using assms by (simp add: pq_inv_def)
qed

lemma take_top_inv:
  assumes ne: "pq_queue q \<noteq> []" and inv: "pq_inv q"
  shows "pq_inv (snd (take_top q)) \<and> pq_maxSize (snd (take_top q)) = pq_maxSize q"
proof -
  obtain p where p: "take_top q =
      (Some p, q\<lparr>pq_queue := remove1 p (pq_queue q), pq_currentSize := pq_currentSize q - 1\<rparr>)"
      "p \<in> set (pq_queue q)"
    using take_top_nonempty [OF ne] by blast
  have len: "unat (pq_currentSize q) = length (pq_queue q)"
    and le: "pq_currentSize q \<le> pq_maxSize q"
    using inv by (simp_all add: pq_inv_def)
  have pos: "0 < unat (pq_currentSize q)" using ne len by simp
  have "pq_currentSize q - 1 \<le> pq_maxSize q"
    using unat_pred_pos(2) [OF pos] le by (rule order_trans)
  then show ?thesis
    using p len unat_pred_pos(1) [OF pos] by (simp add: pq_inv_def length_remove1)
qed

lemma pq_step_inv:
  assumes "pq_inv q"
  shows "pq_inv (pq_step q x) \<and> pq_maxSize (pq_step q x) = pq_maxSize q"
proof (cases x)
  case (Enqueue p)
  then show ?thesis using enqueue_inv [OF assms, of p] by simp
next
  case Dequeue
  then show ?thesis
    using assms take_top_inv [of q] by (cases "pq_queue q = []") (simp_all add: dequeue_def)
next
  case TryDequeue
  then show ?thesis
    using assms take_top_inv [of q] by (cases "pq_queue q = []") (simp_all add: tryDequeue_def)
next
  case Shutdown
  then show ?thesis using assms by (simp add: shutdown_def pq_inv_def)
qed

lemma pq_run_inv:
  "pq_inv q \<Longrightarrow> pq_inv (pq_run q ops) \<and> pq_maxSize (pq_run q ops) = pq_maxSize q"
proof (induction ops arbitrary: q)
  case Nil
  then show ?case by (simp add: pq_run_def)
next
  case (Cons x ops)
  have run: "pq_run q (x # ops) = pq_run (pq_step q x) ops"
    by (simp add: pq_run_def)
  have step: "pq_inv (pq_step q x)" "pq_maxSize (pq_step q x) = pq_maxSize q"
    using pq_step_inv [OF Cons.prems, of x] by simp_all
  show ?case
    unfolding run using Cons.IH [OF step(1)] step(2) by simp
qed

lemma pq_inv_new: "pq_inv (PacketQueue_new m)"
  by (simp add: pq_inv_def PacketQueue_new_def)

section \<open>Packet queue: capacity\<close>

text \<open>
  C3. Take any queue reached from a new queue of bound \<open>m\<close> by any sequence of
  \<open>enqueue\<close>, \<open>dequeue\<close>, \<open>tryDequeue\<close> and \<open>shutdown\<close> calls. Its size is the number of
  packets it holds and is at most \<open>m\<close>. An \<open>enqueue\<close> on it when the size equals \<open>m\<close>
  returns false, adds one to \<open>total_dropped\<close> and changes nothing else, so the packets
  held stay as they are and the arrival is the packet lost; an \<open>enqueue\<close> when the size
  is below \<open>m\<close> returns true, adds the packet to the content and one to the size.
\<close>

theorem queue_bounded_tail_drop:
  "unat (size_pq (pq_run (PacketQueue_new m) ops)) = length (pq_queue (pq_run (PacketQueue_new m) ops))
   \<and> size_pq (pq_run (PacketQueue_new m) ops) \<le> m
   \<and> pq_maxSize (pq_run (PacketQueue_new m) ops) = m
   \<and> enqueue p (pq_run (PacketQueue_new m) ops) =
       (if size_pq (pq_run (PacketQueue_new m) ops) = m
        then (False, (pq_run (PacketQueue_new m) ops)
                \<lparr>pq_totalDropped := pq_totalDropped (pq_run (PacketQueue_new m) ops) + 1\<rparr>)
        else (True, (pq_run (PacketQueue_new m) ops)
                \<lparr>pq_queue := pq_push p (pq_queue (pq_run (PacketQueue_new m) ops)),
                 pq_currentSize := pq_currentSize (pq_run (PacketQueue_new m) ops) + 1\<rparr>))
   \<and> mset (pq_queue (snd (enqueue p (pq_run (PacketQueue_new m) ops)))) =
       (if size_pq (pq_run (PacketQueue_new m) ops) = m
        then mset (pq_queue (pq_run (PacketQueue_new m) ops))
        else add_mset p (mset (pq_queue (pq_run (PacketQueue_new m) ops))))"
proof -
  let ?q = "pq_run (PacketQueue_new m) ops"
  have "pq_inv ?q \<and> pq_maxSize ?q = pq_maxSize (PacketQueue_new m)"
    using pq_inv_new by (rule pq_run_inv)
  moreover have "pq_maxSize (PacketQueue_new m) = m"
    by (simp add: PacketQueue_new_def)
  ultimately have inv: "unat (pq_currentSize ?q) = length (pq_queue ?q)"
      "pq_currentSize ?q \<le> m" "pq_maxSize ?q = m"
    by (auto simp: pq_inv_def)
  have lt: "pq_currentSize ?q < pq_maxSize ?q \<longleftrightarrow> pq_currentSize ?q \<noteq> m"
    using inv(2,3) by auto
  show ?thesis
  proof (cases "pq_currentSize ?q = m")
    case True
    then have "enqueue p ?q = (False, ?q\<lparr>pq_totalDropped := pq_totalDropped ?q + 1\<rparr>)"
      using lt by (simp add: enqueue_unfold)
    then show ?thesis
      using inv True by (simp add: size_pq_def)
  next
    case False
    then have "enqueue p ?q =
        (True, ?q\<lparr>pq_queue := pq_push p (pq_queue ?q), pq_currentSize := pq_currentSize ?q + 1\<rparr>)"
      using lt by (simp add: enqueue_unfold)
    then show ?thesis
      using inv False by (simp add: size_pq_def pq_push_def)
  qed
qed

text \<open>A queue of bound 2 holding two packets refuses a third, of whatever priority.\<close>

theorem queue_bounded_tail_drop_witness:
  "size_pq (pq_run (PacketQueue_new 2)
      [Enqueue (Packet_new 10 1 100 LOW), Enqueue (Packet_new 20 2 100 HIGH)]) = 2
   \<and> \<not> fst (enqueue (Packet_new 30 3 100 CRITICAL) (pq_run (PacketQueue_new 2)
      [Enqueue (Packet_new 10 1 100 LOW), Enqueue (Packet_new 20 2 100 HIGH)]))
   \<and> pq_queue (snd (enqueue (Packet_new 30 3 100 CRITICAL) (pq_run (PacketQueue_new 2)
      [Enqueue (Packet_new 10 1 100 LOW), Enqueue (Packet_new 20 2 100 HIGH)])))
     = [Packet_new 10 1 100 LOW, Packet_new 20 2 100 HIGH]"
proof -
  let ?q = "pq_run (PacketQueue_new 2)
      [Enqueue (Packet_new 10 1 100 LOW), Enqueue (Packet_new 20 2 100 HIGH)]"
  have q: "?q = \<lparr>pq_queue = [Packet_new 10 1 100 LOW, Packet_new 20 2 100 HIGH], pq_maxSize = 2,
      pq_currentSize = 2, pq_totalDropped = 0, pq_shutdown = False\<rparr>"
    by (simp add: pq_run_def enqueue_def pq_push_def PacketQueue_new_def word_le_nat_alt)
  show ?thesis
    using queue_bounded_tail_drop [of 2
        "[Enqueue (Packet_new 10 1 100 LOW), Enqueue (Packet_new 20 2 100 HIGH)]"
        "Packet_new 30 3 100 CRITICAL"]
    by (simp add: q size_pq_def)
qed

section \<open>Packet queue: order of service\<close>

text \<open>
  C4. On a queue that holds at least one packet, \<open>tryDequeue\<close> and the blocking
  \<open>dequeue\<close> return the same packet \<open>p\<close> and leave the same queue: \<open>p\<close> was in the queue,
  no packet in the queue had a higher priority value, none of \<open>p\<close>'s priority had an
  earlier creation time, and the queue afterwards is the queue before less one copy of
  \<open>p\<close>, with the size counter one lower.
\<close>

theorem dequeue_max_priority_oldest:
  assumes "pq_queue q \<noteq> []"
  shows "\<exists>p. fst (tryDequeue q) = Some p \<and> fst (dequeue q) = Returned (Some p)
     \<and> snd (dequeue q) = snd (tryDequeue q)
     \<and> p \<in> set (pq_queue q)
     \<and> (\<forall>y\<in>set (pq_queue q).
          priority_value (pkt_priority y) \<le> priority_value (pkt_priority p)
          \<and> (priority_value (pkt_priority y) = priority_value (pkt_priority p)
               \<longrightarrow> pkt_creationTime p \<le> pkt_creationTime y))
     \<and> mset (pq_queue (snd (tryDequeue q))) = mset (pq_queue q) - {#p#}
     \<and> pq_currentSize (snd (tryDequeue q)) = pq_currentSize q - 1"
proof -
  obtain p where p: "take_top q =
      (Some p, q\<lparr>pq_queue := remove1 p (pq_queue q), pq_currentSize := pq_currentSize q - 1\<rparr>)"
      "p \<in> set (pq_queue q)" "\<forall>y\<in>set (pq_queue q). \<not> PacketComparator p y"
    using take_top_nonempty [OF assms] by blast
  have best: "\<forall>y\<in>set (pq_queue q).
          priority_value (pkt_priority y) \<le> priority_value (pkt_priority p)
          \<and> (priority_value (pkt_priority y) = priority_value (pkt_priority p)
               \<longrightarrow> pkt_creationTime p \<le> pkt_creationTime y)"
    using p(3) by (simp only: not_below_all_iff)
  have "fst (tryDequeue q) = Some p" "fst (dequeue q) = Returned (Some p)"
    "snd (dequeue q) = snd (tryDequeue q)"
    "mset (pq_queue (snd (tryDequeue q))) = mset (pq_queue q) - {#p#}"
    "pq_currentSize (snd (tryDequeue q)) = pq_currentSize q - 1"
    using assms p(1) by (simp_all add: tryDequeue_def dequeue_def)
  with p(2) best show ?thesis by blast
qed

text \<open>
  Of a LOW packet created at tick 10 and two HIGH packets created at ticks 30 and 20,
  held in that order, the HIGH packet of tick 20 leaves first.
\<close>

theorem dequeue_max_priority_oldest_witness:
  "pq_queue \<lparr>pq_queue = [Packet_new 10 1 100 LOW, Packet_new 30 3 100 HIGH, Packet_new 20 2 100 HIGH],
      pq_maxSize = 5, pq_currentSize = 3, pq_totalDropped = 0, pq_shutdown = False\<rparr> \<noteq> []
   \<and> fst (tryDequeue \<lparr>pq_queue = [Packet_new 10 1 100 LOW, Packet_new 30 3 100 HIGH, Packet_new 20 2 100 HIGH],
      pq_maxSize = 5, pq_currentSize = 3, pq_totalDropped = 0, pq_shutdown = False\<rparr>)
      = Some (Packet_new 20 2 100 HIGH)
   \<and> fst (dequeue \<lparr>pq_queue = [Packet_new 10 1 100 LOW, Packet_new 30 3 100 HIGH, Packet_new 20 2 100 HIGH],
      pq_maxSize = 5, pq_currentSize = 3, pq_totalDropped = 0, pq_shutdown = False\<rparr>)
      = Returned (Some (Packet_new 20 2 100 HIGH))"
proof -
  let ?q = "\<lparr>pq_queue = [Packet_new 10 1 100 LOW, Packet_new 30 3 100 HIGH, Packet_new 20 2 100 HIGH],
      pq_maxSize = 5, pq_currentSize = 3, pq_totalDropped = 0, pq_shutdown = False\<rparr>"
  have ne: "pq_queue ?q \<noteq> []" by simp
  obtain p where p: "fst (tryDequeue ?q) = Some p" "fst (dequeue ?q) = Returned (Some p)"
      "p \<in> set (pq_queue ?q)"
      "\<forall>y\<in>set (pq_queue ?q).
          priority_value (pkt_priority y) \<le> priority_value (pkt_priority p)
          \<and> (priority_value (pkt_priority y) = priority_value (pkt_priority p)
               \<longrightarrow> pkt_creationTime p \<le> pkt_creationTime y)"
    using dequeue_max_priority_oldest [OF ne] by blast
  have "p = Packet_new 20 2 100 HIGH"
    using p(3,4) by (auto simp: Packet_new_def)
  then show ?thesis
    using p(1,2) by simp
qed

section \<open>Packet queue: blocking dequeue and shutdown\<close>

lemma pq_run_shutdown: "pq_shutdown q \<Longrightarrow> pq_shutdown (pq_run q ops)"
proof (induction ops arbitrary: q)
  case Nil
  then show ?case by (simp add: pq_run_def)
next
  case (Cons x ops)
  have "pq_shutdown (pq_step q x)"
    using Cons.prems
    by (cases x) (simp_all add: enqueue_def dequeue_def tryDequeue_def take_top_def shutdown_def)
  then have "pq_shutdown (pq_run (pq_step q x) ops)" by (rule Cons.IH)
  then show ?case by (simp add: pq_run_def)
qed

lemma dequeue_unfold:
  "dequeue q =
     (if pq_queue q = [] then (if pq_shutdown q then (Returned None, q) else (Blocked, q))
      else (Returned (fst (tryDequeue q)), snd (tryDequeue q)))"
  by (simp add: dequeue_def tryDequeue_def)

lemma pq_top_eq_None: "pq_top xs = None \<longleftrightarrow> xs = []"
  by (cases xs) simp_all

text \<open>The callers of the blocking \<open>dequeue\<close>: nothing clears the flag, and with the flag set no thread blocks.\<close>

lemma dequeue_keeps_shutdown: "pq_shutdown (snd (dequeue q)) = pq_shutdown q"
  by (simp add: dequeue_def take_top_def)

lemma tryDequeue_keeps_shutdown: "pq_shutdown (snd (tryDequeue q)) = pq_shutdown q"
  by (simp add: tryDequeue_def take_top_def)

lemma enqueue_keeps_shutdown: "pq_shutdown (snd (enqueue p q)) = pq_shutdown q"
  by (simp add: enqueue_def)

lemma dequeue_shutdown_Returned:
  "pq_shutdown q \<Longrightarrow> fst (dequeue q) = Returned (fst (tryDequeue q))"
  by (simp add: dequeue_def tryDequeue_def)

lemma wait_and_take_shutdown:
  assumes "pq_shutdown (qs_queue s)"
  shows "wait_and_take t s =
           (s\<lparr>qs_queue := snd (dequeue (qs_queue s))\<rparr>, Some (t, fst (tryDequeue (qs_queue s))))"
  using assms by (simp add: wait_and_take_def dequeue_shutdown_Returned)

lemma wait_and_take_blocks:
  assumes "pq_queue (qs_queue s) = []" and "\<not> pq_shutdown (qs_queue s)"
  shows "wait_and_take t s = (s\<lparr>qs_blocked := qs_blocked s @ [t]\<rparr>, None)"
  using assms by (simp add: wait_and_take_def dequeue_def)

lemma qs_step_after_shutdown:
  assumes sh: "pq_shutdown (qs_queue s)" and nb: "qs_blocked s = []"
  shows "pq_shutdown (qs_queue (fst (qs_step s e)))
       \<and> qs_blocked (fst (qs_step s e)) = []
       \<and> (\<forall>t\<in>set (qs_woken s).
            t \<in> set (qs_woken (fst (qs_step s e)))
            \<or> (\<exists>r. snd (qs_step s e) = Some (t, r)))"
proof (cases e)
  case (CallEnqueue p k)
  then show ?thesis
    using sh nb by (simp add: notify_one_def enqueue_keeps_shutdown)
next
  case (CallDequeue t)
  then show ?thesis
    using sh nb by (simp add: wait_and_take_shutdown dequeue_keeps_shutdown)
next
  case (Resume t)
  show ?thesis
  proof (cases "t \<in> set (qs_woken s)")
    case True
    let ?s = "s\<lparr>qs_woken := remove1 t (qs_woken s)\<rparr>"
    have "pq_shutdown (qs_queue ?s)" using sh by simp
    then have w: "wait_and_take t ?s =
        (?s\<lparr>qs_queue := snd (dequeue (qs_queue ?s))\<rparr>, Some (t, fst (tryDequeue (qs_queue ?s))))"
      by (rule wait_and_take_shutdown)
    have "t' \<in> set (remove1 t (qs_woken s)) \<or> t' = t" if "t' \<in> set (qs_woken s)" for t'
      using that by (cases "t' = t") simp_all
    then show ?thesis
      unfolding Resume using True sh nb w by (auto simp: dequeue_keeps_shutdown)
  next
    case False
    then show ?thesis unfolding Resume using sh nb by simp
  qed
next
  case (SpuriousWake t)
  then show ?thesis using sh nb by simp
next
  case CallTryDequeue
  then show ?thesis using sh nb by (simp add: tryDequeue_keeps_shutdown)
next
  case CallShutdown
  then show ?thesis using sh nb by (simp add: notify_all_def shutdown_def)
qed

lemma qs_run_after_shutdown:
  assumes "pq_shutdown (qs_queue s)" and "qs_blocked s = []"
  shows "pq_shutdown (qs_queue (fst (qs_run s es)))
       \<and> qs_blocked (fst (qs_run s es)) = []
       \<and> (\<forall>t\<in>set (qs_woken s).
            t \<in> set (qs_woken (fst (qs_run s es))) \<or> t \<in> fst ` set (snd (qs_run s es)))"
  using assms
proof (induction es arbitrary: s)
  case Nil
  then show ?case by simp
next
  case (Cons e es)
  let ?s1 = "fst (qs_step s e)"
  have step: "pq_shutdown (qs_queue ?s1)" "qs_blocked ?s1 = []"
      "\<forall>t\<in>set (qs_woken s). t \<in> set (qs_woken ?s1) \<or> (\<exists>r. snd (qs_step s e) = Some (t, r))"
    using qs_step_after_shutdown [OF Cons.prems, of e] by blast+
  have ih: "pq_shutdown (qs_queue (fst (qs_run ?s1 es)))" "qs_blocked (fst (qs_run ?s1 es)) = []"
      "\<forall>t\<in>set (qs_woken ?s1).
          t \<in> set (qs_woken (fst (qs_run ?s1 es))) \<or> t \<in> fst ` set (snd (qs_run ?s1 es))"
    using Cons.IH [OF step(1,2)] by blast+
  have "t \<in> set (qs_woken (fst (qs_run s (e # es)))) \<or> t \<in> fst ` set (snd (qs_run s (e # es)))"
    if t: "t \<in> set (qs_woken s)" for t
  proof -
    from step(3) t consider "t \<in> set (qs_woken ?s1)" | r where "snd (qs_step s e) = Some (t, r)"
      by blast
    then show ?thesis
    proof cases
      case 1
      with ih(3) show ?thesis by auto
    next
      case 2
      then show ?thesis by (simp add: image_Un)
    qed
  qed
  then show ?case
    using ih(1,2) by simp
qed

lemma shutdown_wakes_all:
  "qs_blocked (fst (qs_step s CallShutdown)) = []
   \<and> qs_woken (fst (qs_step s CallShutdown)) = qs_woken s @ qs_blocked s
   \<and> pq_shutdown (qs_queue (fst (qs_step s CallShutdown)))
   \<and> qs_queue (fst (qs_step s CallShutdown)) = shutdown (qs_queue s)"
  by (simp add: notify_all_def shutdown_def)

text \<open>One call of \<open>dequeue\<close> on a given state of the queue.\<close>

lemma dequeue_one_evaluation:
  "dequeue q =
     (if pq_queue q = [] then (if pq_shutdown q then (Returned None, q) else (Blocked, q))
      else (Returned (fst (tryDequeue q)), snd (tryDequeue q)))
   \<and> (fst (dequeue q) = Blocked) = (pq_queue q = [] \<and> \<not> pq_shutdown q)
   \<and> (fst (dequeue q) = Returned None) = (pq_shutdown q \<and> pq_queue q = [])
   \<and> (fst (dequeue q) = Returned (Some p) \<longrightarrow>
        p \<in> set (pq_queue q)
        \<and> (\<forall>y\<in>set (pq_queue q).
             priority_value (pkt_priority y) \<le> priority_value (pkt_priority p)
             \<and> (priority_value (pkt_priority y) = priority_value (pkt_priority p)
                  \<longrightarrow> pkt_creationTime p \<le> pkt_creationTime y))
        \<and> mset (pq_queue (snd (dequeue q))) = mset (pq_queue q) - {#p#})
   \<and> fst (dequeue (shutdown q)) \<noteq> Blocked
   \<and> fst (dequeue (pq_run (shutdown q) ops)) \<noteq> Blocked"
proof -
  have blocked: "(fst (dequeue q) = Blocked) = (pq_queue q = [] \<and> \<not> pq_shutdown q)" for q
    by (simp add: dequeue_def)
  have none: "(fst (dequeue q) = Returned None) = (pq_shutdown q \<and> pq_queue q = [])"
    by (auto simp: dequeue_def take_top_def pq_top_eq_None)
  have some: "fst (dequeue q) = Returned (Some p) \<longrightarrow>
        p \<in> set (pq_queue q)
        \<and> (\<forall>y\<in>set (pq_queue q).
             priority_value (pkt_priority y) \<le> priority_value (pkt_priority p)
             \<and> (priority_value (pkt_priority y) = priority_value (pkt_priority p)
                  \<longrightarrow> pkt_creationTime p \<le> pkt_creationTime y))
        \<and> mset (pq_queue (snd (dequeue q))) = mset (pq_queue q) - {#p#}"
  proof
    assume r: "fst (dequeue q) = Returned (Some p)"
    then have ne: "pq_queue q \<noteq> []"
      by (auto simp: dequeue_def split: if_splits)
    obtain p' where p': "take_top q =
        (Some p', q\<lparr>pq_queue := remove1 p' (pq_queue q), pq_currentSize := pq_currentSize q - 1\<rparr>)"
        "p' \<in> set (pq_queue q)" "\<forall>y\<in>set (pq_queue q). \<not> PacketComparator p' y"
      using take_top_nonempty [OF ne] by blast
    have eq: "p' = p" using r ne p'(1) by (simp add: dequeue_def)
    have "\<forall>y\<in>set (pq_queue q).
             priority_value (pkt_priority y) \<le> priority_value (pkt_priority p')
             \<and> (priority_value (pkt_priority y) = priority_value (pkt_priority p')
                  \<longrightarrow> pkt_creationTime p' \<le> pkt_creationTime y)"
      using p'(3) by (simp only: not_below_all_iff)
    moreover have "mset (pq_queue (snd (dequeue q))) = mset (pq_queue q) - {#p'#}"
      using ne p'(1) by (simp add: dequeue_def)
    ultimately show "p \<in> set (pq_queue q)
        \<and> (\<forall>y\<in>set (pq_queue q).
             priority_value (pkt_priority y) \<le> priority_value (pkt_priority p)
             \<and> (priority_value (pkt_priority y) = priority_value (pkt_priority p)
                  \<longrightarrow> pkt_creationTime p \<le> pkt_creationTime y))
        \<and> mset (pq_queue (snd (dequeue q))) = mset (pq_queue q) - {#p#}"
      using p'(2) unfolding eq by blast
  qed
  have woken: "fst (dequeue (shutdown q)) \<noteq> Blocked"
    by (simp add: blocked shutdown_def)
  have "pq_shutdown (pq_run (shutdown q) ops)"
    by (rule pq_run_shutdown) (simp add: shutdown_def)
  then have later: "fst (dequeue (pq_run (shutdown q) ops)) \<noteq> Blocked"
    by (simp add: blocked)
  show ?thesis
    using dequeue_unfold [of q] blocked [of q] none some woken later by blast
qed

text \<open>
  C5. One evaluation of the wait's predicate by a thread that holds the mutex: the
  thread stays blocked exactly when the queue is empty and \<open>shutdown\<close> has not been
  called; it gets the sentinel \<open>None\<close> exactly when \<open>shutdown\<close> has been called and the
  queue is empty, and nothing changes; otherwise it gets what \<open>tryDequeue\<close> gets, a packet
  of the queue of the highest priority value and, within that priority, the earliest
  creation time, which is removed. So a thread that calls \<open>dequeue\<close>, and a woken thread
  that runs again, joins the blocked threads when the queue is empty and not shut down,
  and returns otherwise. \<open>shutdown\<close> sets the flag, and its \<open>notify_all\<close> wakes every
  blocked thread: none is left blocked, all of them are among the woken. In every run
  that follows no thread is blocked again, and each thread that was blocked at the
  \<open>shutdown\<close> is still among the woken or has returned from \<open>dequeue\<close>.
\<close>

theorem blocking_dequeue_shutdown:
  "dequeue q =
     (if pq_queue q = [] then (if pq_shutdown q then (Returned None, q) else (Blocked, q))
      else (Returned (fst (tryDequeue q)), snd (tryDequeue q)))
   \<and> (fst (dequeue q) = Blocked) = (pq_queue q = [] \<and> \<not> pq_shutdown q)
   \<and> (fst (dequeue q) = Returned None) = (pq_shutdown q \<and> pq_queue q = [])
   \<and> (fst (dequeue q) = Returned (Some p) \<longrightarrow>
        p \<in> set (pq_queue q)
        \<and> (\<forall>y\<in>set (pq_queue q).
             priority_value (pkt_priority y) \<le> priority_value (pkt_priority p)
             \<and> (priority_value (pkt_priority y) = priority_value (pkt_priority p)
                  \<longrightarrow> pkt_creationTime p \<le> pkt_creationTime y))
        \<and> mset (pq_queue (snd (dequeue q))) = mset (pq_queue q) - {#p#})
   \<and> fst (dequeue (shutdown q)) \<noteq> Blocked
   \<and> fst (dequeue (pq_run (shutdown q) ops)) \<noteq> Blocked
   \<and> (t \<notin> set (qs_blocked s) \<and> t \<notin> set (qs_woken s) \<longrightarrow>
        qs_step s (CallDequeue t) =
          (if pq_queue (qs_queue s) = [] \<and> \<not> pq_shutdown (qs_queue s)
           then (s\<lparr>qs_blocked := qs_blocked s @ [t]\<rparr>, None)
           else (s\<lparr>qs_queue := snd (dequeue (qs_queue s))\<rparr>,
                 Some (t, fst (tryDequeue (qs_queue s))))))
   \<and> (t \<in> set (qs_woken s) \<longrightarrow>
        qs_step s (Resume t) =
          (if pq_queue (qs_queue s) = [] \<and> \<not> pq_shutdown (qs_queue s)
           then (s\<lparr>qs_woken := remove1 t (qs_woken s), qs_blocked := qs_blocked s @ [t]\<rparr>, None)
           else (s\<lparr>qs_woken := remove1 t (qs_woken s),
                    qs_queue := snd (dequeue (qs_queue s))\<rparr>,
                 Some (t, fst (tryDequeue (qs_queue s))))))
   \<and> qs_blocked (fst (qs_step s CallShutdown)) = []
   \<and> qs_woken (fst (qs_step s CallShutdown)) = qs_woken s @ qs_blocked s
   \<and> qs_queue (fst (qs_step s CallShutdown)) = shutdown (qs_queue s)
   \<and> qs_blocked (fst (qs_run (fst (qs_step s CallShutdown)) es)) = []
   \<and> (\<forall>w\<in>set (qs_blocked s).
        w \<in> set (qs_woken (fst (qs_run (fst (qs_step s CallShutdown)) es)))
        \<or> w \<in> fst ` set (snd (qs_run (fst (qs_step s CallShutdown)) es)))"
proof -
  have one: "dequeue q =
     (if pq_queue q = [] then (if pq_shutdown q then (Returned None, q) else (Blocked, q))
      else (Returned (fst (tryDequeue q)), snd (tryDequeue q)))
   \<and> (fst (dequeue q) = Blocked) = (pq_queue q = [] \<and> \<not> pq_shutdown q)
   \<and> (fst (dequeue q) = Returned None) = (pq_shutdown q \<and> pq_queue q = [])
   \<and> (fst (dequeue q) = Returned (Some p) \<longrightarrow>
        p \<in> set (pq_queue q)
        \<and> (\<forall>y\<in>set (pq_queue q).
             priority_value (pkt_priority y) \<le> priority_value (pkt_priority p)
             \<and> (priority_value (pkt_priority y) = priority_value (pkt_priority p)
                  \<longrightarrow> pkt_creationTime p \<le> pkt_creationTime y))
        \<and> mset (pq_queue (snd (dequeue q))) = mset (pq_queue q) - {#p#})
   \<and> fst (dequeue (shutdown q)) \<noteq> Blocked
   \<and> fst (dequeue (pq_run (shutdown q) ops)) \<noteq> Blocked"
    by (rule dequeue_one_evaluation)
  have wt: "wait_and_take t s' =
          (if pq_queue (qs_queue s') = [] \<and> \<not> pq_shutdown (qs_queue s')
           then (s'\<lparr>qs_blocked := qs_blocked s' @ [t]\<rparr>, None)
           else (s'\<lparr>qs_queue := snd (dequeue (qs_queue s'))\<rparr>,
                 Some (t, fst (tryDequeue (qs_queue s')))))" for s'
    by (simp add: wait_and_take_def dequeue_unfold tryDequeue_def)
  have call: "t \<notin> set (qs_blocked s) \<and> t \<notin> set (qs_woken s) \<longrightarrow>
        qs_step s (CallDequeue t) =
          (if pq_queue (qs_queue s) = [] \<and> \<not> pq_shutdown (qs_queue s)
           then (s\<lparr>qs_blocked := qs_blocked s @ [t]\<rparr>, None)
           else (s\<lparr>qs_queue := snd (dequeue (qs_queue s))\<rparr>,
                 Some (t, fst (tryDequeue (qs_queue s)))))"
    by (simp add: wt)
  have resume: "t \<in> set (qs_woken s) \<longrightarrow>
        qs_step s (Resume t) =
          (if pq_queue (qs_queue s) = [] \<and> \<not> pq_shutdown (qs_queue s)
           then (s\<lparr>qs_woken := remove1 t (qs_woken s), qs_blocked := qs_blocked s @ [t]\<rparr>, None)
           else (s\<lparr>qs_woken := remove1 t (qs_woken s),
                    qs_queue := snd (dequeue (qs_queue s))\<rparr>,
                 Some (t, fst (tryDequeue (qs_queue s)))))"
    by (simp add: wt)
  let ?s1 = "fst (qs_step s CallShutdown)"
  have wake: "qs_blocked ?s1 = []" "qs_woken ?s1 = qs_woken s @ qs_blocked s"
      "pq_shutdown (qs_queue ?s1)" "qs_queue ?s1 = shutdown (qs_queue s)"
    using shutdown_wakes_all [of s] by blast+
  have after: "qs_blocked (fst (qs_run ?s1 es)) = []"
      "\<forall>w\<in>set (qs_woken ?s1).
         w \<in> set (qs_woken (fst (qs_run ?s1 es))) \<or> w \<in> fst ` set (snd (qs_run ?s1 es))"
    using qs_run_after_shutdown [OF wake(3,1), of es] by blast+
  have later: "\<forall>w\<in>set (qs_blocked s).
         w \<in> set (qs_woken (fst (qs_run ?s1 es))) \<or> w \<in> fst ` set (snd (qs_run ?s1 es))"
    using after(2) wake(2) by simp
  show ?thesis
    using one call resume wake(1,2,4) after(1) later by blast
qed

text \<open>
  Two threads call \<open>dequeue\<close> on a new queue and block. \<open>shutdown\<close> wakes both, and each
  returns \<open>None\<close> when it runs. A shut-down queue that still holds a LOW and a HIGH packet
  hands out the HIGH one.
\<close>

theorem blocking_dequeue_shutdown_witness:
  "qs_run (QueueSys_new 5) [CallDequeue 1, CallDequeue 2]
     = (\<lparr>qs_queue = PacketQueue_new 5, qs_blocked = [1, 2], qs_woken = []\<rparr>, [])
   \<and> fst (qs_step \<lparr>qs_queue = PacketQueue_new 5, qs_blocked = [1, 2], qs_woken = []\<rparr> CallShutdown)
     = \<lparr>qs_queue = shutdown (PacketQueue_new 5), qs_blocked = [], qs_woken = [1, 2]\<rparr>
   \<and> snd (qs_run \<lparr>qs_queue = shutdown (PacketQueue_new 5), qs_blocked = [], qs_woken = [1, 2]\<rparr>
        [Resume 2, Resume 1]) = [(2, None), (1, None)]
   \<and> fst (dequeue (pq_run (PacketQueue_new 5)
        [Enqueue (Packet_new 10 1 100 LOW), Enqueue (Packet_new 20 2 100 HIGH), Shutdown]))
      = Returned (Some (Packet_new 20 2 100 HIGH))
   \<and> mset (pq_queue (snd (dequeue (pq_run (PacketQueue_new 5)
        [Enqueue (Packet_new 10 1 100 LOW), Enqueue (Packet_new 20 2 100 HIGH), Shutdown]))))
      = {#Packet_new 10 1 100 LOW#}"
proof -
  let ?q = "pq_run (PacketQueue_new 5)
        [Enqueue (Packet_new 10 1 100 LOW), Enqueue (Packet_new 20 2 100 HIGH), Shutdown]"
  let ?s = "\<lparr>qs_queue = PacketQueue_new 5, qs_blocked = [1, 2], qs_woken = []\<rparr>"
  let ?s1 = "\<lparr>qs_queue = shutdown (PacketQueue_new 5), qs_blocked = [], qs_woken = [1, 2]\<rparr>"
  have q: "?q = \<lparr>pq_queue = [Packet_new 10 1 100 LOW, Packet_new 20 2 100 HIGH], pq_maxSize = 5,
      pq_currentSize = 2, pq_totalDropped = 0, pq_shutdown = True\<rparr>"
    by (simp add: pq_run_def enqueue_def pq_push_def shutdown_def PacketQueue_new_def
        word_le_nat_alt)
  have r: "fst (dequeue ?q) = Returned (Some (Packet_new 20 2 100 HIGH))"
    unfolding q by (simp add: dequeue_def take_top_def PacketComparator_def Packet_new_def)
  have "mset (pq_queue (snd (dequeue ?q))) = mset (pq_queue ?q) - {#Packet_new 20 2 100 HIGH#}"
    using r blocking_dequeue_shutdown [where q = ?q and p = "Packet_new 20 2 100 HIGH"]
    by blast
  then have m: "mset (pq_queue (snd (dequeue ?q))) = {#Packet_new 10 1 100 LOW#}"
    by (simp add: q)
  have e: "pq_queue (PacketQueue_new 5) = []" "\<not> pq_shutdown (PacketQueue_new 5)"
    by (simp_all add: PacketQueue_new_def)
  have b: "qs_run (QueueSys_new 5) [CallDequeue 1, CallDequeue 2] = (?s, [])"
    using e by (simp add: QueueSys_new_def wait_and_take_def dequeue_def)
  have s1: "fst (qs_step ?s CallShutdown) = ?s1"
    by (simp add: notify_all_def)
  have woken: "\<forall>w\<in>set (qs_blocked ?s).
        w \<in> set (qs_woken (fst (qs_run (fst (qs_step ?s CallShutdown)) [Resume 2, Resume 1])))
        \<or> w \<in> fst ` set (snd (qs_run (fst (qs_step ?s CallShutdown)) [Resume 2, Resume 1]))"
    using blocking_dequeue_shutdown [where s = ?s and es = "[Resume 2, Resume 1]"] by blast
  have "snd (qs_run ?s1 [Resume 2, Resume 1]) = [(2, None), (1, None)]"
    by (simp add: wait_and_take_def dequeue_def shutdown_def PacketQueue_new_def tryDequeue_def)
  then show ?thesis
    using b s1 r m woken by simp
qed

section \<open>Packet queue: enqueue after shutdown\<close>

text \<open>
  C9. \<open>enqueue\<close> never reads the shutdown flag: on the same queue with the flag set
  to anything it returns the same result and leaves the same queue, flag apart. On a
  queue that has been shut down it returns true exactly when the size is below the
  bound, and then the packet is in the queue and the size is one higher; the flag stays
  set.
\<close>

theorem enqueue_ignores_shutdown:
  "enqueue p (q\<lparr>pq_shutdown := s\<rparr>) = (fst (enqueue p q), (snd (enqueue p q))\<lparr>pq_shutdown := s\<rparr>)
   \<and> fst (enqueue p (shutdown q)) = (pq_currentSize q < pq_maxSize q)
   \<and> pq_queue (snd (enqueue p (shutdown q))) =
       (if pq_currentSize q < pq_maxSize q then pq_push p (pq_queue q) else pq_queue q)
   \<and> pq_currentSize (snd (enqueue p (shutdown q))) =
       (if pq_currentSize q < pq_maxSize q then pq_currentSize q + 1 else pq_currentSize q)
   \<and> pq_shutdown (snd (enqueue p (shutdown q)))"
  by (simp add: enqueue_unfold shutdown_def)

text \<open>A new queue of bound 5, shut down, accepts a packet.\<close>

theorem enqueue_ignores_shutdown_witness:
  "enqueue (Packet_new 10 1 100 LOW) (shutdown (PacketQueue_new 5))
     = (True, \<lparr>pq_queue = [Packet_new 10 1 100 LOW], pq_maxSize = 5, pq_currentSize = 1,
          pq_totalDropped = 0, pq_shutdown = True\<rparr>)"
  using enqueue_ignores_shutdown
    [where p = "Packet_new 10 1 100 LOW" and q = "PacketQueue_new 5" and s = True]
  by (simp add: enqueue_def shutdown_def PacketQueue_new_def pq_push_def word_le_nat_alt)

section \<open>Flow: inter-arrival times\<close>

lemma unat_avg_micro: "unat (ucast (avg :: u32) * 1000000 :: u64) = unat avg * 1000000"
proof -
  have "unat avg < 2 ^ 32"
    using unsigned_less [of avg, where ?'a = nat] by simp
  then have "unat avg * 1000000 < 2 ^ 64" by simp
  then show ?thesis
    by (simp add: unat_word_ariths unat_ucast_u32)
qed

lemma udiv_Inr: "b \<noteq> 0 \<Longrightarrow> udiv a b = Inr (a div b)"
  by (simp add: udiv_def)

lemma times3_nonzero: "(r :: u64) \<noteq> 0 \<Longrightarrow> r * 3 \<noteq> 0"
proof
  assume r: "r \<noteq> 0" and z: "r * 3 = 0"
  have "unat (r * 3) = unat r * 3 mod 2 ^ 64"
    by (simp add: unat_word_ariths)
  with z have "(2 :: nat) ^ 64 dvd unat r * 3"
    by (simp add: mod_eq_0_iff_dvd)
  moreover have "coprime ((2 :: nat) ^ 64) 3"
    by (simp only: coprime_power_left_iff) simp
  ultimately have "(2 :: nat) ^ 64 dvd unat r"
    by (simp add: coprime_dvd_mult_left_iff)
  moreover have "unat r < 2 ^ 64"
    using unsigned_less [of r, where ?'a = nat] by simp
  ultimately have "unat r = 0"
    using nat_dvd_not_less by blast
  with r show False by (simp add: unat_eq_zero)
qed

lemma half_nonzero: "2 \<le> (r :: u64) \<Longrightarrow> r div 2 \<noteq> 0"
proof -
  assume "2 \<le> r"
  then have "2 \<le> unat r" by (simp add: word_le_nat_alt)
  then have "unat (r div 2) \<noteq> 0" by (simp add: unat_div)
  then show ?thesis by (simp add: unat_eq_zero)
qed

lemma nonzero_quotients_exact: "nonzero_quotients (exact_random_ops nl)"
  by (simp add: nonzero_quotients_def exact_random_ops_def)

lemma ddiv_Inr: "b \<noteq> d_zero ops \<Longrightarrow> ddiv ops a b = Inr (d_div ops a b)"
  by (simp add: ddiv_def)

lemma poisson_no_division_by_zero:
  assumes t: "fl_type f = POISSON"
    and r: "1 \<le> fl_targetRate f" and a: "1 \<le> avgPacketSize"
    and nz: "nonzero_quotients ops"
  shows "getInterArrivalTime ops u avgPacketSize f =
           (case d_to_u64 ops
                   (d_mul ops
                      (d_div ops (d_neg_log1m ops u)
                         (d_div ops (d_of_nat ops (unat (fl_targetRate f)))
                                    (d_of_nat ops (unat avgPacketSize))))
                      (d_lit ops 1000000)) of
              None \<Rightarrow> Inl CastOutOfRange
            | Some us \<Rightarrow> Inr us)"
proof -
  have n: "0 < unat (fl_targetRate f)" "unat (fl_targetRate f) < 2 ^ 64"
    using r unsigned_less [of "fl_targetRate f", where ?'a = nat]
    by (simp_all add: word_le_nat_alt)
  have m: "0 < unat avgPacketSize" "unat avgPacketSize < 2 ^ 32"
    using a unsigned_less [of avgPacketSize, where ?'a = nat]
    by (simp_all add: word_le_nat_alt)
  have d1: "d_of_nat ops (unat avgPacketSize) \<noteq> d_zero ops"
    and d2: "d_div ops (d_of_nat ops (unat (fl_targetRate f)))
                       (d_of_nat ops (unat avgPacketSize)) \<noteq> d_zero ops"
    using nz n m unfolding nonzero_quotients_def by blast+
  show ?thesis
    using t by (simp add: getInterArrivalTime_def ddiv_Inr [OF d1] ddiv_Inr [OF d2])
qed

text \<open>
  C6, as the code has it. The constructor of \<open>Flow\<close> checks nothing and keeps whatever
  target rate it is given. \<open>getInterArrivalTime\<close> divides by no zero, and returns a
  gap, for a CONSTANT_RATE flow whose target rate is at least 1 and for a BURSTY flow
  whose target rate is at least 2, whatever the draw and the average packet size. For a
  POISSON flow it divides by no zero when the target rate and the average packet size
  are both at least 1, in a \<open>double\<close> arithmetic where nonzero integers of these widths
  convert to nonzero values with nonzero quotients: neither \<open>avgPacketSize\<close> nor the
  \<open>lambda\<close> the distribution divides by is zero.
\<close>

theorem getInterArrivalTime_no_division_by_zero:
  assumes "fl_type f = CONSTANT_RATE \<and> 1 \<le> fl_targetRate f
         \<or> fl_type f = BURSTY \<and> 2 \<le> fl_targetRate f
         \<or> fl_type f = POISSON \<and> 1 \<le> fl_targetRate f \<and> 1 \<le> avgPacketSize
             \<and> nonzero_quotients ops"
  shows "getInterArrivalTime ops u avgPacketSize f \<noteq> Inl DivisionByZero
       \<and> (fl_type f \<noteq> POISSON \<longrightarrow>
            (\<exists>us. getInterArrivalTime ops u avgPacketSize f = Inr us))"
proof (cases "fl_type f")
  case POISSON
  then have "getInterArrivalTime ops u avgPacketSize f =
           (case d_to_u64 ops
                   (d_mul ops
                      (d_div ops (d_neg_log1m ops u)
                         (d_div ops (d_of_nat ops (unat (fl_targetRate f)))
                                    (d_of_nat ops (unat avgPacketSize))))
                      (d_lit ops 1000000)) of
              None \<Rightarrow> Inl CastOutOfRange
            | Some us \<Rightarrow> Inr us)"
    using assms by (intro poisson_no_division_by_zero) simp_all
  then show ?thesis
    using POISSON by (simp split: option.split)
next
  case CONSTANT_RATE
  have "fl_targetRate f \<noteq> 0"
    using assms CONSTANT_RATE by (auto simp: word_le_nat_alt)
  then show ?thesis
    using CONSTANT_RATE by (simp add: getInterArrivalTime_def udiv_Inr)
next
  case BURSTY
  then have two: "2 \<le> fl_targetRate f" using assms by simp
  then have "fl_targetRate f \<noteq> 0" by (auto simp: word_le_nat_alt)
  then have "fl_targetRate f * 3 \<noteq> 0" by (rule times3_nonzero)
  moreover have "fl_targetRate f div 2 \<noteq> 0" using two by (rule half_nonzero)
  ultimately show ?thesis
    using BURSTY by (simp add: getInterArrivalTime_def udiv_Inr)
qed

text \<open>
  A bursty flow of 400 KB/s in its idle case: a gap of 2441 microseconds. A Poisson
  flow of 350 KB/s with the draw \<open>u = 1 - 1/e\<close>, for which \<open>-log(1 - u) = 1\<close>: the gap
  is the mean, \<open>500 / 358400\<close> seconds, 1395 microseconds.
\<close>

theorem getInterArrivalTime_no_division_by_zero_witness:
  "getInterArrivalTime (exact_random_ops (\<lambda>u. - ln (1 - u))) (1 / 2) 500
      (Flow_new exact_ops 1 BURSTY 409600 HIGH) = Inr 2441
   \<and> getInterArrivalTime (exact_random_ops (\<lambda>u. - ln (1 - u))) (1 - exp (- 1)) 500
      (Flow_new exact_ops 3 POISSON 358400 LOW) = Inr 1395"
proof -
  let ?ops = "exact_random_ops (\<lambda>u. - ln (1 - u))"
  let ?b = "Flow_new exact_ops 1 BURSTY 409600 HIGH"
  let ?p = "Flow_new exact_ops 3 POISSON 358400 LOW"
  have hb: "fl_type ?b = CONSTANT_RATE \<and> 1 \<le> fl_targetRate ?b
         \<or> fl_type ?b = BURSTY \<and> 2 \<le> fl_targetRate ?b
         \<or> fl_type ?b = POISSON \<and> 1 \<le> fl_targetRate ?b \<and> 1 \<le> (500 :: u32)
             \<and> nonzero_quotients ?ops"
    by (simp add: Flow_new_def)
  have hp: "fl_type ?p = CONSTANT_RATE \<and> 1 \<le> fl_targetRate ?p
         \<or> fl_type ?p = BURSTY \<and> 2 \<le> fl_targetRate ?p
         \<or> fl_type ?p = POISSON \<and> 1 \<le> fl_targetRate ?p \<and> 1 \<le> (500 :: u32)
             \<and> nonzero_quotients ?ops"
    by (simp add: Flow_new_def nonzero_quotients_exact)
  obtain us where "getInterArrivalTime ?ops (1 / 2) 500 ?b = Inr us"
    using getInterArrivalTime_no_division_by_zero [OF hb, of "1 / 2"]
    by (auto simp: Flow_new_def)
  moreover have "getInterArrivalTime ?ops (1 / 2) 500 ?b = udiv 500000000 204800"
    by (simp add: getInterArrivalTime_def Flow_new_def exact_random_ops_def)
  ultimately have b: "getInterArrivalTime ?ops (1 / 2) 500 ?b = Inr 2441"
    by (simp add: udiv_def)
  have "getInterArrivalTime ?ops (1 - exp (- 1)) 500 ?p \<noteq> Inl DivisionByZero"
    using getInterArrivalTime_no_division_by_zero [OF hp, of "1 - exp (- 1)"] by blast
  moreover have "getInterArrivalTime ?ops (1 - exp (- 1)) 500 ?p = Inr 1395"
    by (simp add: getInterArrivalTime_def Flow_new_def exact_random_ops_def ddiv_def)
  ultimately show ?thesis
    using b by simp
qed

text \<open>
  C6 as stated fails: a CONSTANT_RATE flow is constructed with target rate 0, and its
  first gap divides by that rate. A POISSON flow of rate 0 has \<open>lambda = 0\<close>, by which
  the distribution divides, and with an average packet size of 0 the quotient that is
  to be \<open>lambda\<close> is a division by zero.
\<close>

theorem zero_rate_divides_by_zero_counterexample:
  "fl_targetRate (Flow_new exact_ops 1 CONSTANT_RATE 0 MEDIUM) = 0
   \<and> getInterArrivalTime (exact_random_ops (\<lambda>u. - ln (1 - u))) (1 / 2) 500
        (Flow_new exact_ops 1 CONSTANT_RATE 0 MEDIUM) = Inl DivisionByZero
   \<and> getInterArrivalTime (exact_random_ops (\<lambda>u. - ln (1 - u))) (1 / 2) 500
        (Flow_new exact_ops 1 POISSON 0 MEDIUM) = Inl DivisionByZero
   \<and> getInterArrivalTime (exact_random_ops (\<lambda>u. - ln (1 - u))) (1 / 2) 0
        (Flow_new exact_ops 1 POISSON 358400 MEDIUM) = Inl DivisionByZero"
  by (simp add: getInterArrivalTime_def Flow_new_def udiv_def ddiv_def exact_random_ops_def)

text \<open>The idle case halves the rate before it divides, so a rate of 1 divides by 0 too.\<close>

lemma bursty_rate_one_idle:
  "getInterArrivalTime (exact_random_ops (\<lambda>u. - ln (1 - u))) (1 / 2) 500
     (Flow_new exact_ops 1 BURSTY 1 MEDIUM) = Inl DivisionByZero"
  by (simp add: getInterArrivalTime_def Flow_new_def udiv_def exact_random_ops_def)

text \<open>
  C7, as the code has it. For a bursty flow of target rate \<open>R\<close> and average packet
  size \<open>avg\<close>, with \<open>u\<close> the uniform draw: when \<open>u < 0.3\<close> (the burst case) the gap is
  \<open>floor (avg * 10^6 / (3 * R))\<close>, where \<open>R \<ge> 1\<close> and \<open>3 * R\<close> does not wrap
  (\<open>3 * R < 2^64\<close>); otherwise (the idle case) the gap is
  \<open>floor (avg * 10^6 / floor (R / 2))\<close>, where \<open>R \<ge> 2\<close>, which is
  \<open>floor (avg * 10^6 * 2 / R)\<close> when \<open>R\<close> is even. The draw is uniform over \<open>[0, 1)\<close>,
  and in exact arithmetic the draws that take the burst case are those of \<open>[0, 0.3)\<close>,
  three tenths of the unit interval: the burst case has probability 0.3.
\<close>

theorem bursty_gaps:
  assumes "fl_type f = BURSTY"
  shows "(d_less ops u (d_lit ops (3 / 10))
          \<and> 1 \<le> unat (fl_targetRate f) \<and> 3 * unat (fl_targetRate f) < 2 ^ 64 \<longrightarrow>
            (\<exists>us. getInterArrivalTime ops u avg f = Inr us
               \<and> unat us = unat avg * 1000000 div (3 * unat (fl_targetRate f))))
       \<and> (\<not> d_less ops u (d_lit ops (3 / 10)) \<and> 2 \<le> unat (fl_targetRate f) \<longrightarrow>
            (\<exists>us. getInterArrivalTime ops u avg f = Inr us
               \<and> unat us = unat avg * 1000000 div (unat (fl_targetRate f) div 2)
               \<and> (even (unat (fl_targetRate f)) \<longrightarrow>
                    unat us = unat avg * 1000000 * 2 div unat (fl_targetRate f))))
       \<and> {x. 0 \<le> x \<and> x < 1
              \<and> d_less (exact_random_ops nl) x (d_lit (exact_random_ops nl) (3 / 10))}
           = {0..<3 / 10}"
proof (intro conjI impI)
  assume a: "d_less ops u (d_lit ops (3 / 10))
      \<and> 1 \<le> unat (fl_targetRate f) \<and> 3 * unat (fl_targetRate f) < 2 ^ 64"
  then have nz: "fl_targetRate f \<noteq> 0" by auto
  have three: "unat (fl_targetRate f * 3) = 3 * unat (fl_targetRate f)"
    using a by (simp add: unat_word_ariths)
  have "getInterArrivalTime ops u avg f
          = Inr ((ucast avg * 1000000) div (fl_targetRate f * 3))"
    using assms a times3_nonzero [OF nz] by (simp add: getInterArrivalTime_def udiv_Inr)
  moreover have "unat ((ucast avg * 1000000 :: u64) div (fl_targetRate f * 3))
                   = unat avg * 1000000 div (3 * unat (fl_targetRate f))"
    by (simp add: unat_div unat_avg_micro three)
  ultimately show "\<exists>us. getInterArrivalTime ops u avg f = Inr us
               \<and> unat us = unat avg * 1000000 div (3 * unat (fl_targetRate f))"
    by simp
next
  assume a: "\<not> d_less ops u (d_lit ops (3 / 10)) \<and> 2 \<le> unat (fl_targetRate f)"
  then have "2 \<le> fl_targetRate f" by (simp add: word_le_nat_alt)
  then have nz: "fl_targetRate f div 2 \<noteq> 0" by (rule half_nonzero)
  have r: "getInterArrivalTime ops u avg f
          = Inr ((ucast avg * 1000000) div (fl_targetRate f div 2))"
    using assms a nz by (simp add: getInterArrivalTime_def udiv_Inr)
  have v: "unat ((ucast avg * 1000000 :: u64) div (fl_targetRate f div 2))
                   = unat avg * 1000000 div (unat (fl_targetRate f) div 2)"
    by (simp add: unat_div unat_avg_micro)
  have ev: "unat avg * 1000000 div (unat (fl_targetRate f) div 2)
              = unat avg * 1000000 * 2 div unat (fl_targetRate f)"
    if "even (unat (fl_targetRate f))"
  proof -
    from that obtain k where k: "unat (fl_targetRate f) = 2 * k" by (auto elim: evenE)
    have "2 * (unat avg * 1000000) div (2 * k) = unat avg * 1000000 div k"
      by (rule div_mult_mult1) simp
    then show ?thesis by (simp add: k mult.commute)
  qed
  show "\<exists>us. getInterArrivalTime ops u avg f = Inr us
               \<and> unat us = unat avg * 1000000 div (unat (fl_targetRate f) div 2)
               \<and> (even (unat (fl_targetRate f)) \<longrightarrow>
                    unat us = unat avg * 1000000 * 2 div unat (fl_targetRate f))"
    using r v ev by simp
next
  show "{x. 0 \<le> x \<and> x < 1
              \<and> d_less (exact_random_ops nl) x (d_lit (exact_random_ops nl) (3 / 10))}
           = {0..<3 / 10}"
    by (auto simp: exact_random_ops_def)
qed

text \<open>
  A bursty flow of 400 KB/s: a gap of 406 microseconds for the draw 0.25 and of 2441
  microseconds for the draw 0.3, the first that is no burst.
\<close>

theorem bursty_gaps_witness:
  "fl_type (Flow_new exact_ops 1 BURSTY 409600 HIGH) = BURSTY
   \<and> getInterArrivalTime (exact_random_ops (\<lambda>u. - ln (1 - u))) (1 / 4) 500
        (Flow_new exact_ops 1 BURSTY 409600 HIGH) = Inr 406
   \<and> getInterArrivalTime (exact_random_ops (\<lambda>u. - ln (1 - u))) (3 / 10) 500
        (Flow_new exact_ops 1 BURSTY 409600 HIGH) = Inr 2441"
proof -
  let ?ops = "exact_random_ops (\<lambda>u. - ln (1 - u))"
  let ?f = "Flow_new exact_ops 1 BURSTY 409600 HIGH"
  have t: "fl_type ?f = BURSTY" and r: "unat (fl_targetRate ?f) = 409600"
    by (simp_all add: Flow_new_def)
  have lt: "d_less ?ops (1 / 4) (d_lit ?ops (3 / 10))"
    and ge: "\<not> d_less ?ops (3 / 10) (d_lit ?ops (3 / 10))"
    by (simp_all add: exact_random_ops_def)
  obtain a where a: "getInterArrivalTime ?ops (1 / 4) 500 ?f = Inr a" "unat a = 406"
    using bursty_gaps [OF t, where ops = ?ops and u = "1 / 4" and avg = 500] r lt by auto
  obtain b where b: "getInterArrivalTime ?ops (3 / 10) 500 ?f = Inr b" "unat b = 2441"
    using bursty_gaps [OF t, where ops = ?ops and u = "3 / 10" and avg = 500] r ge by auto
  have "a = 406" "b = 2441"
    using a(2) b(2) by (simp_all add: word_unat_eq_iff)
  then show ?thesis using t a(1) b(1) by simp
qed

text \<open>
  C7 as stated fails in the idle case for an odd rate: with \<open>R = 3\<close> the code divides
  by \<open>R / 2 = 1\<close> and waits 500000000 microseconds, where \<open>avg * 10^6 * 2 / R\<close> is
  333333333. It fails in the burst case where \<open>3 * R\<close> wraps: with
  \<open>R = 6148914691236517206\<close> the code divides by \<open>3 * R mod 2^64 = 2\<close> and waits
  250000000 microseconds, where \<open>avg * 10^6 / (3 * R)\<close> is 0.
\<close>

theorem bursty_idle_gap_counterexample:
  "getInterArrivalTime (exact_random_ops (\<lambda>u. - ln (1 - u))) (1 / 2) 500
      (Flow_new exact_ops 1 BURSTY 3 MEDIUM) = Inr 500000000
   \<and> (500 * 1000000 * 2) div 3 = (333333333 :: nat)
   \<and> getInterArrivalTime (exact_random_ops (\<lambda>u. - ln (1 - u))) (1 / 4) 500
      (Flow_new exact_ops 1 BURSTY 6148914691236517206 MEDIUM) = Inr 250000000
   \<and> (500 * 1000000) div (3 * 6148914691236517206) = (0 :: nat)"
  by (simp add: getInterArrivalTime_def Flow_new_def udiv_def exact_random_ops_def)

section \<open>Flow and collector: averages\<close>

text \<open>
  C8. The average delay of a flow is 0 when \<open>packets_sent - packets_dropped\<close> is 0 and
  otherwise \<open>total_delay\<close> divided by that difference, converted to \<open>double\<close>; the
  difference is the 64-bit one, which is the difference of the two counts whenever
  \<open>packets_dropped \<le> packets_sent\<close>. The collector's snapshot of a flow carries that
  average delay, and its drop rate is 0 when \<open>packets_sent\<close> is 0 and otherwise
  \<open>packets_dropped\<close> divided by \<open>packets_sent\<close>, both converted to \<open>double\<close>.
\<close>

theorem average_delay_and_drop_rate:
  "getAverageDelay ops f =
     (if fl_packetsSent f - fl_packetsDropped f = 0 then d_zero ops
      else d_div ops (fl_totalDelay f)
             (d_of_nat ops (unat (fl_packetsSent f - fl_packetsDropped f))))
   \<and> (fl_packetsDropped f \<le> fl_packetsSent f \<longrightarrow>
        getAverageDelay ops f =
          (if unat (fl_packetsSent f) - unat (fl_packetsDropped f) = 0 then d_zero ops
           else d_div ops (fl_totalDelay f)
                  (d_of_nat ops (unat (fl_packetsSent f) - unat (fl_packetsDropped f)))))
   \<and> fs_averageDelay (flowStat ops elapsed f) = getAverageDelay ops f
   \<and> fs_dropRate (flowStat ops elapsed f) =
       (if unat (fl_packetsSent f) = 0 then d_zero ops
        else d_div ops (d_of_nat ops (unat (fl_packetsDropped f)))
               (d_of_nat ops (unat (fl_packetsSent f))))"
proof -
  have pos: "(0 < w) = (w \<noteq> 0)" for w :: u64
    by (simp add: word_greater_zero_iff)
  have a: "getAverageDelay ops f =
     (if fl_packetsSent f - fl_packetsDropped f = 0 then d_zero ops
      else d_div ops (fl_totalDelay f)
             (d_of_nat ops (unat (fl_packetsSent f - fl_packetsDropped f))))"
    by (simp add: getAverageDelay_def Let_def pos)
  have b: "getAverageDelay ops f =
          (if unat (fl_packetsSent f) - unat (fl_packetsDropped f) = 0 then d_zero ops
           else d_div ops (fl_totalDelay f)
                  (d_of_nat ops (unat (fl_packetsSent f) - unat (fl_packetsDropped f))))"
    if le: "fl_packetsDropped f \<le> fl_packetsSent f"
  proof -
    have "unat (fl_packetsSent f - fl_packetsDropped f)
            = unat (fl_packetsSent f) - unat (fl_packetsDropped f)"
      using le by (simp add: unat_sub)
    then show ?thesis
      unfolding a by (simp add: unat_eq_zero [symmetric] del: unat_eq_zero)
  qed
  have c: "fs_averageDelay (flowStat ops elapsed f) = getAverageDelay ops f"
    by (simp add: flowStat_def)
  have d: "fs_dropRate (flowStat ops elapsed f) =
       (if unat (fl_packetsSent f) = 0 then d_zero ops
        else d_div ops (d_of_nat ops (unat (fl_packetsDropped f)))
               (d_of_nat ops (unat (fl_packetsSent f))))"
    by (simp add: flowStat_def pos unat_eq_zero)
  show ?thesis using a b c d by blast
qed

text \<open>
  A flow with 10 packets sent, 2 dropped and 40 ms of total delay: 5 ms of average
  delay and a drop rate of 1/5; a new flow has average delay 0.
\<close>

theorem average_delay_and_drop_rate_witness:
  "getAverageDelay exact_ops
     ((Flow_new exact_ops 1 CONSTANT_RATE 1000 MEDIUM)
        \<lparr>fl_packetsSent := 10, fl_packetsDropped := 2, fl_totalDelay := 40\<rparr>) = 5
   \<and> fs_dropRate (flowStat exact_ops 1
     ((Flow_new exact_ops 1 CONSTANT_RATE 1000 MEDIUM)
        \<lparr>fl_packetsSent := 10, fl_packetsDropped := 2, fl_totalDelay := 40\<rparr>)) = 1 / 5
   \<and> getAverageDelay exact_ops (Flow_new exact_ops 1 CONSTANT_RATE 1000 MEDIUM) = 0"
  using average_delay_and_drop_rate [of exact_ops
     "(Flow_new exact_ops 1 CONSTANT_RATE 1000 MEDIUM)
        \<lparr>fl_packetsSent := 10, fl_packetsDropped := 2, fl_totalDelay := 40\<rparr>" 1]
    average_delay_and_drop_rate [of exact_ops "Flow_new exact_ops 1 CONSTANT_RATE 1000 MEDIUM" 1]
  by (simp add: Flow_new_def exact_ops_def)

end
